theory Spec2Isabelle
  imports Complex_Main
begin

section \<open>Strings and dictionaries\<close>

text \<open>
  Python strings are modelled as \<open>string\<close>. Header names are ASCII, so \<open>str.lower\<close>
  is modelled on the letters A to Z only.
\<close>

definition lower_char :: "char \<Rightarrow> char" where
  "lower_char c =
     (let n = (of_char c :: nat) in if 65 \<le> n \<and> n \<le> 90 then char_of (n + 32) else c)"

definition lower :: "string \<Rightarrow> string" where
  "lower s = map lower_char s"

text \<open>\<open>starts_with hay needle\<close>: \<open>hay.startswith(needle)\<close>.\<close>

fun starts_with :: "string \<Rightarrow> string \<Rightarrow> bool" where
  "starts_with hay [] = True"
| "starts_with [] (n # ns) = False"
| "starts_with (h # hs) (n # ns) = (h = n \<and> starts_with hs ns)"

text \<open>\<open>contains hay needle\<close>: Python's \<open>needle in hay\<close> on strings.\<close>

fun contains :: "string \<Rightarrow> string \<Rightarrow> bool" where
  "contains [] needle = (needle = [])"
| "contains (h # hs) needle = (starts_with (h # hs) needle \<or> contains hs needle)"

text \<open>
  A plain \<open>dict\<close> with string keys is an association list in insertion order with
  distinct keys: \<open>d[k] = v\<close> overwrites in place or appends, \<open>d.get(k)\<close> and
  \<open>k in d\<close> compare keys exactly.
\<close>

type_synonym 'v dict = "(string \<times> 'v) list"

fun dict_set :: "'v dict \<Rightarrow> string \<Rightarrow> 'v \<Rightarrow> 'v dict" where
  "dict_set [] k v = [(k, v)]"
| "dict_set ((k', v') # d) k v = (if k' = k then (k, v) # d else (k', v') # dict_set d k v)"

definition dict_get :: "'v dict \<Rightarrow> string \<Rightarrow> 'v option" where
  "dict_get d k = map_of d k"

definition dict_get_default :: "'v dict \<Rightarrow> string \<Rightarrow> 'v \<Rightarrow> 'v" where
  "dict_get_default d k dflt = (case map_of d k of None \<Rightarrow> dflt | Some v \<Rightarrow> v)"

definition dict_update :: "'v dict \<Rightarrow> 'v dict \<Rightarrow> 'v dict" where
  "dict_update d e = fold (\<lambda>(k, v) acc. dict_set acc k v) e d"

text \<open>
  \<open>response.headers\<close> of the \<open>requests\<close> library is a case-insensitive dictionary:
  \<open>items()\<close> yields the names as the response spelled them, \<open>get\<close> compares names
  without regard to case.
\<close>

type_synonym header_dict = "(string \<times> string) list"

definition ci_get :: "header_dict \<Rightarrow> string \<Rightarrow> string option" where
  "ci_get hs name = map_of (map (\<lambda>(k, v). (lower k, v)) hs) (lower name)"

definition ci_get_default :: "header_dict \<Rightarrow> string \<Rightarrow> string \<Rightarrow> string" where
  "ci_get_default hs name dflt = (case ci_get hs name of None \<Rightarrow> dflt | Some v \<Rightarrow> v)"

section \<open>HTTP requests, replies and probe results\<close>

text \<open>
  Time is the value of \<open>time.time()\<close>, idealised as an integer count of milliseconds;
  \<open>second\<close> is the source's \<open>1.0\<close>. Rounding of floating-point arithmetic is not
  modelled.
\<close>

definition second :: int where
  "second = 1000"

record http_request =
  req_method :: string
  req_url :: string
  req_headers :: "string dict"
  req_params :: "string dict"

text \<open>
  What \<open>requests.request\<close> does: it returns a response (status code, headers,
  elapsed milliseconds) or raises an exception, whose text is kept.
\<close>

datatype http_reply =
  Response int header_dict nat
| Raised string

text \<open>
  The dictionary a \<open>test_request\<close> returns. The two scripts fill different keys, and a
  failed request has \<open>error\<close> instead of \<open>status_code\<close>; a key that is absent is
  \<open>None\<close>.
\<close>

record probe_result =
  res_status_code :: "int option"
  res_rate_info :: "string dict option"
  res_headers :: "string dict option"
  res_error :: "string option"
  res_api_key :: "string option"
  res_auth_method :: "string option"
  res_method :: string
  res_timestamp :: int
  res_response_time :: "nat option"

section \<open>S3AuthSimulator\<close>

text \<open>
  The simulator formats \<open>datetime.utcnow()\<close> in three ways; the formatted strings are
  inputs of the model.
\<close>

record utc_now =
  amz_timestamp :: string
  date_stamp :: string
  http_date :: string

definition create_v4_auth_header :: "utc_now \<Rightarrow> string \<Rightarrow> string \<Rightarrow> string \<Rightarrow> string \<Rightarrow> string dict" where
  "create_v4_auth_header utc access_key method path host =
     (let credential = access_key @ ''/'' @ date_stamp utc @ ''/us-east-1/s3/aws4_request'';
          auth_header = ''AWS4-HMAC-SHA256 Credential='' @ credential
            @ '', SignedHeaders=host;x-amz-date, Signature=dummy-signature''
      in [(''Authorization'', auth_header), (''X-Amz-Date'', amz_timestamp utc), (''Host'', host)])"

definition create_v2_auth_header :: "utc_now \<Rightarrow> string \<Rightarrow> string \<Rightarrow> string \<Rightarrow> string dict" where
  "create_v2_auth_header utc access_key method path =
     (let signature = ''dummy-signature-v2'';
          auth_header = ''AWS '' @ access_key @ '':'' @ signature
      in [(''Authorization'', auth_header), (''Date'', http_date utc)])"

definition create_presigned_url_params :: "utc_now \<Rightarrow> string \<Rightarrow> string \<Rightarrow> string \<Rightarrow> string dict" where
  "create_presigned_url_params utc access_key method expires =
     [(''X-Amz-Algorithm'', ''AWS4-HMAC-SHA256''),
      (''X-Amz-Credential'', access_key @ ''/'' @ date_stamp utc @ ''/us-east-1/s3/aws4_request''),
      (''X-Amz-Date'', amz_timestamp utc),
      (''X-Amz-Expires'', expires),
      (''X-Amz-SignedHeaders'', ''host''),
      (''X-Amz-Signature'', ''dummy-presigned-signature'')]"

section \<open>test_request (test_advanced_rate_limiting.py)\<close>

text \<open>
  Lines 68 to 84: the request that is sent. The chain of \<open>if\<close>/\<open>elif\<close> has no
  \<open>else\<close>: an \<open>auth_method\<close> that matches no branch leaves \<open>headers\<close> and
  \<open>params\<close> as initialised.
\<close>

definition build_request :: "utc_now \<Rightarrow> string \<Rightarrow> string \<Rightarrow> string \<Rightarrow> string \<Rightarrow> string \<Rightarrow> http_request" where
  "build_request utc base_url auth_method api_key method path =
     (let url = base_url @ path;
          headers = [(''User-Agent'', ''test-client/2.0'')];
          params = [];
          (headers, params) =
            (if auth_method = ''v4'' then
               (dict_update headers (create_v4_auth_header utc api_key method path ''localhost''), params)
             else if auth_method = ''v2'' then
               (dict_update headers (create_v2_auth_header utc api_key method path), params)
             else if auth_method = ''presigned'' then
               (headers, dict_update params (create_presigned_url_params utc api_key method ''3600''))
             else if auth_method = ''query_v2'' then
               (headers, dict_set (dict_set params ''AWSAccessKeyId'' api_key) ''Signature'' ''dummy-signature'')
             else if auth_method = ''custom'' then
               (dict_set headers ''X-API-Key'' api_key, params)
             else (headers, params))
      in \<lparr>req_method = method, req_url = url, req_headers = headers, req_params = params\<rparr>)"

text \<open>Lines 90 to 93: the headers kept as \<open>rate_info\<close>, under the name the response spelled.\<close>

definition extract_rate_info :: "header_dict \<Rightarrow> string dict" where
  "extract_rate_info hs =
     fold (\<lambda>(header, v) rate_info.
             if contains (lower header) ''rate'' \<or> contains (lower header) ''api-key''
                \<or> contains (lower header) ''auth''
             then dict_set rate_info header v else rate_info) hs []"

text \<open>
  \<open>send\<close> is the network: what \<open>requests.request\<close> does with the request.
  \<open>now\<close> is the value of \<open>time.time()\<close> when the result is built.
\<close>

definition test_request ::
  "utc_now \<Rightarrow> (http_request \<Rightarrow> http_reply) \<Rightarrow> int \<Rightarrow> string \<Rightarrow> string \<Rightarrow> string \<Rightarrow> string \<Rightarrow> string \<Rightarrow> probe_result" where
  "test_request utc send now base_url auth_method api_key method path =
     (case send (build_request utc base_url auth_method api_key method path) of
        Response sc hs el \<Rightarrow>
          \<lparr>res_status_code = Some sc, res_rate_info = Some (extract_rate_info hs), res_headers = None,
           res_error = None, res_api_key = Some api_key, res_auth_method = Some auth_method,
           res_method = method, res_timestamp = now, res_response_time = Some el\<rparr>
      | Raised e \<Rightarrow>
          \<lparr>res_status_code = None, res_rate_info = None, res_headers = None,
           res_error = Some e, res_api_key = Some api_key, res_auth_method = Some auth_method,
           res_method = method, res_timestamp = now, res_response_time = None\<rparr>)"

section \<open>test_request (test_rate_limit.py)\<close>

text \<open>
  The script's three branches on \<open>method\<close> send the same request. \<open>api_key\<close>
  defaults to \<open>None\<close>; \<open>if api_key\<close> is false for \<open>None\<close> and for the empty
  string. \<open>dict(response.headers)\<close> keeps the names as the response spelled them.
\<close>

definition basic_request :: "string \<Rightarrow> string option \<Rightarrow> string \<Rightarrow> string \<Rightarrow> http_request" where
  "basic_request base_url api_key method path =
     (let url = base_url @ path;
          params = [];
          params = (case api_key of
                      Some k \<Rightarrow> if k \<noteq> [] then dict_set params ''AWSAccessKeyId'' k else params
                    | None \<Rightarrow> params);
          headers = [(''User-Agent'', ''test-client/1.0'')]
      in \<lparr>req_method = method, req_url = url, req_headers = headers, req_params = params\<rparr>)"

definition test_request_basic ::
  "(http_request \<Rightarrow> http_reply) \<Rightarrow> int \<Rightarrow> string \<Rightarrow> string option \<Rightarrow> string \<Rightarrow> string \<Rightarrow> probe_result" where
  "test_request_basic send now base_url api_key method path =
     (case send (basic_request base_url api_key method path) of
        Response sc hs el \<Rightarrow>
          \<lparr>res_status_code = Some sc, res_rate_info = None,
           res_headers = Some (dict_update [] hs),
           res_error = None, res_api_key = api_key, res_auth_method = None,
           res_method = method, res_timestamp = now, res_response_time = None\<rparr>
      | Raised e \<Rightarrow>
          \<lparr>res_status_code = None, res_rate_info = None, res_headers = None,
           res_error = Some e, res_api_key = api_key, res_auth_method = None,
           res_method = method, res_timestamp = now, res_response_time = None\<rparr>)"

section \<open>The worker pool\<close>

text \<open>
  \<open>ThreadPoolExecutor(max_workers = W)\<close>, idealised: submitted calls queue in order of
  submission, and the call at the head of the queue starts on the worker that becomes
  free first; a call that starts at \<open>t\<close> and takes \<open>l\<close> milliseconds completes at
  \<open>t + l\<close>. \<open>free\<close> lists, for each worker, the time from which it is free;
  \<open>pool_schedule\<close> gives the completion time of each call, in order of submission.
\<close>

fun pool_schedule :: "int list \<Rightarrow> nat list \<Rightarrow> int list" where
  "pool_schedule free [] = []"
| "pool_schedule free (l # ls) =
     (let t0 = min_list free; t = t0 + int l
      in t # pool_schedule (t # remove1 t0 free) ls)"

section \<open>The window loop of run_load_test and run_sustained_test\<close>

text \<open>
  One entry per iteration of the loop: the value of \<open>batch_start\<close>, the number of
  \<open>executor.submit\<close> calls, the time at which the last \<open>future.result()\<close> returned,
  and the argument of \<open>time.sleep\<close> (0 when it is not called).
\<close>

record window =
  w_start :: int
  w_submitted :: nat
  w_done :: int
  w_slept :: int

text \<open>
  The state of a run: the clock, the number of calls submitted so far, the list
  \<open>results\<close>, and the trace of the windows run so far.
\<close>

record engine_state =
  st_clock :: int
  st_submitted :: nat
  st_results :: "probe_result list"
  st_windows :: "window list"

text \<open>
  The body of the loop. \<open>lat i\<close> is the time the \<open>i\<close>-th submitted call takes on its
  worker, \<open>call i now\<close> the dictionary it returns when it completes at \<open>now\<close>.
  All workers are idle when a batch starts, since the previous batch was collected in
  full. \<open>range(rate)\<close> is empty for \<open>rate \<le> 0\<close>. The results are appended in
  order of submission. The clock advances only while calls run and while the loop sleeps.
\<close>

definition run_batch ::
  "nat \<Rightarrow> (nat \<Rightarrow> nat) \<Rightarrow> (nat \<Rightarrow> int \<Rightarrow> probe_result) \<Rightarrow> int \<Rightarrow> engine_state \<Rightarrow> engine_state" where
  "run_batch W lat call rate s =
     (let batch_start = st_clock s;
          futures = [st_submitted s ..< st_submitted s + nat rate];
          finish = pool_schedule (replicate W batch_start) (map lat futures);
          batch = map2 call futures finish;
          done = fold max finish batch_start;
          elapsed = done - batch_start;
          slept = (if elapsed < second then second - elapsed else 0)
      in \<lparr>st_clock = done + slept,
          st_submitted = st_submitted s + nat rate,
          st_results = st_results s @ batch,
          st_windows = st_windows s @
            [\<lparr>w_start = batch_start, w_submitted = nat rate, w_done = done, w_slept = slept\<rparr>]\<rparr>)"

function window_loop ::
  "nat \<Rightarrow> (nat \<Rightarrow> nat) \<Rightarrow> (nat \<Rightarrow> int \<Rightarrow> probe_result) \<Rightarrow> int \<Rightarrow> int \<Rightarrow> int \<Rightarrow> engine_state \<Rightarrow> engine_state" where
  "window_loop W lat call rate start_time duration s =
     (if st_clock s - start_time < duration * second
      then window_loop W lat call rate start_time duration (run_batch W lat call rate s)
      else s)"
  by pat_completeness auto

lemma fold_max_ge: "(a::int) \<le> fold max xs a"
proof (induction xs arbitrary: a)
  case Nil
  show ?case by simp
next
  case (Cons x xs)
  have "a \<le> max x a" by simp
  also have "max x a \<le> fold max xs (max x a)" by (rule Cons.IH)
  finally show ?case by simp
qed

lemma clock_run_batch:
  "st_clock (run_batch W lat call rate s) =
     max (st_clock s + second)
       (fold max (pool_schedule (replicate W (st_clock s))
          (map lat [st_submitted s ..< st_submitted s + nat rate])) (st_clock s))"
  by (simp add: run_batch_def Let_def max_def)

lemma clock_run_batch_ge: "st_clock s + second \<le> st_clock (run_batch W lat call rate s)"
  by (simp add: clock_run_batch)

termination window_loop
proof (relation "measure (\<lambda>(W, lat, call, rate, start_time, duration, s).
                   nat (start_time + duration * second - st_clock s))")
  show "wf (measure (\<lambda>(W, lat, call, rate, start_time, duration, s).
                   nat (start_time + duration * second - st_clock s)))"
    by simp
next
  fix W :: nat and lat :: "nat \<Rightarrow> nat" and call :: "nat \<Rightarrow> int \<Rightarrow> probe_result"
    and rate start_time duration :: int and s :: engine_state
  assume "st_clock s - start_time < duration * second"
  moreover have "st_clock s + second \<le> st_clock (run_batch W lat call rate s)"
    by (rule clock_run_batch_ge)
  moreover have "0 < second" by (simp add: second_def)
  ultimately show "((W, lat, call, rate, start_time, duration, run_batch W lat call rate s),
                    (W, lat, call, rate, start_time, duration, s))
          \<in> measure (\<lambda>(W, lat, call, rate, start_time, duration, s).
                   nat (start_time + duration * second - st_clock s))"
    by simp
qed

declare window_loop.simps [simp del]

text \<open>
  \<open>time.sleep\<close> returns no earlier than asked but may return later, and the
  statements of the loop take time of their own. \<open>late k\<close> is the number of
  milliseconds by which the clock read after window \<open>k\<close> (counted from 0), in the
  condition of the loop and as the next \<open>batch_start\<close>, is later than the end of the
  sleep that window asked for. \<open>run_batch\<close> and \<open>window_loop\<close> are the case in which
  \<open>late\<close> is 0 everywhere.
\<close>

definition run_batch_late ::
  "(nat \<Rightarrow> nat) \<Rightarrow> nat \<Rightarrow> (nat \<Rightarrow> nat) \<Rightarrow> (nat \<Rightarrow> int \<Rightarrow> probe_result) \<Rightarrow> int \<Rightarrow> engine_state
     \<Rightarrow> engine_state" where
  "run_batch_late late W lat call rate s =
     (let k = length (st_windows s);
          s' = run_batch W lat call rate s
      in s'\<lparr>st_clock := st_clock s' + int (late k)\<rparr>)"

function window_loop_late ::
  "(nat \<Rightarrow> nat) \<Rightarrow> nat \<Rightarrow> (nat \<Rightarrow> nat) \<Rightarrow> (nat \<Rightarrow> int \<Rightarrow> probe_result) \<Rightarrow> int \<Rightarrow> int \<Rightarrow> int
     \<Rightarrow> engine_state \<Rightarrow> engine_state" where
  "window_loop_late late W lat call rate start_time duration s =
     (if st_clock s - start_time < duration * second
      then window_loop_late late W lat call rate start_time duration
             (run_batch_late late W lat call rate s)
      else s)"
  by pat_completeness auto

lemma clock_run_batch_late:
  "st_clock (run_batch_late late W lat call rate s) =
     st_clock (run_batch W lat call rate s) + int (late (length (st_windows s)))"
  by (simp add: run_batch_late_def Let_def)

termination window_loop_late
proof (relation "measure (\<lambda>(late, W, lat, call, rate, start_time, duration, s).
                   nat (start_time + duration * second - st_clock s))")
  show "wf (measure (\<lambda>(late, W, lat, call, rate, start_time, duration, s).
                   nat (start_time + duration * second - st_clock s)))"
    by simp
next
  fix late :: "nat \<Rightarrow> nat" and W :: nat and lat :: "nat \<Rightarrow> nat"
    and call :: "nat \<Rightarrow> int \<Rightarrow> probe_result"
    and rate start_time duration :: int and s :: engine_state
  assume "st_clock s - start_time < duration * second"
  moreover have "st_clock s + second \<le> st_clock (run_batch_late late W lat call rate s)"
    using clock_run_batch_ge [of s W lat call rate] by (simp add: clock_run_batch_late)
  moreover have "0 < second" by (simp add: second_def)
  ultimately show "((late, W, lat, call, rate, start_time, duration,
                     run_batch_late late W lat call rate s),
                    (late, W, lat, call, rate, start_time, duration, s))
          \<in> measure (\<lambda>(late, W, lat, call, rate, start_time, duration, s).
                   nat (start_time + duration * second - st_clock s))"
    by simp
qed

declare window_loop_late.simps [simp del]

text \<open>
  What the trace of a run records, window by window. Window \<open>k\<close> submitted the
  \<open>n\<close> calls numbered from \<open>k * n\<close>; it started at the start of the run or where
  the window before it ended; the loop condition held at its start; its results are
  the \<open>k\<close>-th block of \<open>n\<close> results, in order of submission, each completed at
  the time the pool gives; the loop went on when the last of them had completed; and
  it asked to sleep for what was left of one second.
\<close>

definition window_at ::
  "(nat \<Rightarrow> nat) \<Rightarrow> nat \<Rightarrow> (nat \<Rightarrow> nat) \<Rightarrow> (nat \<Rightarrow> int \<Rightarrow> probe_result) \<Rightarrow> nat \<Rightarrow> int \<Rightarrow> int
     \<Rightarrow> window list \<Rightarrow> probe_result list \<Rightarrow> nat \<Rightarrow> bool" where
  "window_at late W lat call n t D ws rs k \<longleftrightarrow>
     (let w = ws ! k;
          futures = [k * n ..< k * n + n];
          finish = pool_schedule (replicate W (w_start w)) (map lat futures)
      in w_submitted w = n
         \<and> w_start w = (if k = 0 then t
                         else w_done (ws ! (k - 1)) + w_slept (ws ! (k - 1)) + int (late (k - 1)))
         \<and> w_start w - t < D * second
         \<and> take n (drop (k * n) rs) = map2 call futures finish
         \<and> w_done w = fold max finish (w_start w)
         \<and> w_slept w = max 0 (second - (w_done w - w_start w)))"

definition trace_inv ::
  "(nat \<Rightarrow> nat) \<Rightarrow> nat \<Rightarrow> (nat \<Rightarrow> nat) \<Rightarrow> (nat \<Rightarrow> int \<Rightarrow> probe_result) \<Rightarrow> nat \<Rightarrow> int \<Rightarrow> int
     \<Rightarrow> engine_state \<Rightarrow> bool" where
  "trace_inv late W lat call n t D s \<longleftrightarrow>
     (let ws = st_windows s; m = length ws
      in st_submitted s = m * n \<and> length (st_results s) = m * n
         \<and> st_clock s = (if m = 0 then t
                          else w_done (ws ! (m - 1)) + w_slept (ws ! (m - 1)) + int (late (m - 1)))
         \<and> (\<forall>k < m. window_at late W lat call n t D ws (st_results s) k))"

section \<open>The network seen by one run\<close>

text \<open>
  Calls are numbered in order of submission. For the \<open>i\<close>-th call of a run,
  \<open>env_serve e i\<close> is what the network does with its request, \<open>env_latency e i\<close>
  the milliseconds the call takes, and \<open>env_utc e i\<close> the formatted
  \<open>datetime.utcnow()\<close> it reads. Any execution of a run is described by some \<open>e\<close>.
\<close>

record env =
  env_serve :: "nat \<Rightarrow> http_request \<Rightarrow> http_reply"
  env_latency :: "nat \<Rightarrow> nat"
  env_utc :: "nat \<Rightarrow> utc_now"

section \<open>test_rate_limit.py: run_load_test, analyze_results, main\<close>

definition load_loop ::
  "env \<Rightarrow> int \<Rightarrow> string \<Rightarrow> string option \<Rightarrow> string \<Rightarrow> int \<Rightarrow> int \<Rightarrow> engine_state" where
  "load_loop e start_time base_url api_key method requests_per_second duration =
     window_loop 20 (env_latency e)
       (\<lambda>i now. test_request_basic (env_serve e i) now base_url api_key method ''/test-bucket/'')
       requests_per_second start_time duration
       \<lparr>st_clock = start_time, st_submitted = 0, st_results = [], st_windows = []\<rparr>"

definition run_load_test ::
  "env \<Rightarrow> int \<Rightarrow> string \<Rightarrow> string option \<Rightarrow> string \<Rightarrow> int \<Rightarrow> int \<Rightarrow> probe_result list" where
  "run_load_test e start_time base_url api_key method requests_per_second duration =
     st_results (load_loop e start_time base_url api_key method requests_per_second duration)"

text \<open>What \<open>analyze_results\<close> prints: the four counts and the sample headers.\<close>

record analysis =
  shown_total :: nat
  shown_success :: nat
  shown_rate_limited :: nat
  shown_errors :: nat
  shown_sample :: "string dict"

definition analyze_results :: "probe_result list \<Rightarrow> analysis" where
  "analyze_results results =
     (let success_count =
            length (filter (\<lambda>r. (case res_status_code r of None \<Rightarrow> 0 | Some c \<Rightarrow> c) = 200) results);
          rate_limited_count =
            length (filter (\<lambda>r. (case res_status_code r of None \<Rightarrow> 0 | Some c \<Rightarrow> c) = 429) results);
          error_count = length (filter (\<lambda>r. res_error r \<noteq> None) results);
          rate_limited_responses =
            filter (\<lambda>r. (case res_status_code r of None \<Rightarrow> 0 | Some c \<Rightarrow> c) = 429) results;
          sample_headers =
            (case rate_limited_responses of
               [] \<Rightarrow> []
             | sample # _ \<Rightarrow>
                 filter (\<lambda>(key, v). contains (lower key) ''rate'' \<or> contains (lower key) ''limit'')
                   (case res_headers sample of None \<Rightarrow> [] | Some hs \<Rightarrow> hs))
      in \<lparr>shown_total = length results, shown_success = success_count,
          shown_rate_limited = rate_limited_count, shown_errors = error_count,
          shown_sample = sample_headers\<rparr>)"

text \<open>
  The parsed command line. \<open>argparse\<close> rejects a value outside an option's
  \<open>choices\<close> and exits with a usage error; \<open>type=int\<close> accepts every integer.
\<close>

record cli_args =
  arg_url :: string
  arg_api_key :: string
  arg_method :: string
  arg_rate :: int
  arg_duration :: int
  arg_test_type :: string

datatype cli_error = UsageError

datatype cli_output = Single probe_result | Load analysis

definition main :: "env \<Rightarrow> int \<Rightarrow> cli_args \<Rightarrow> cli_error + cli_output" where
  "main e start_time args =
     (if arg_method args \<notin> set [''GET'', ''PUT''] \<or> arg_test_type args \<notin> set [''single'', ''load'']
      then Inl UsageError
      else if arg_test_type args = ''single'' then
        Inr (Single (test_request_basic (env_serve e 0) (start_time + int (env_latency e 0))
               (arg_url args) (Some (arg_api_key args)) (arg_method args) ''/test-bucket/''))
      else
        Inr (Load (analyze_results
               (run_load_test e start_time (arg_url args) (Some (arg_api_key args)) (arg_method args)
                  (arg_rate args) (arg_duration args)))))"

section \<open>test_advanced_rate_limiting.py: run_sustained_test and the command line\<close>

definition sustained_loop ::
  "env \<Rightarrow> int \<Rightarrow> string \<Rightarrow> string \<Rightarrow> string \<Rightarrow> int \<Rightarrow> int \<Rightarrow> engine_state" where
  "sustained_loop e start_time base_url api_key auth_method duration rate =
     window_loop 10 (env_latency e)
       (\<lambda>i now. test_request (env_utc e i) (env_serve e i) now base_url auth_method api_key
                   ''GET'' ''/test-bucket/test-object'')
       rate start_time duration
       \<lparr>st_clock = start_time, st_submitted = 0, st_results = [], st_windows = []\<rparr>"

text \<open>
  Lines 189 to 193. \<open>rate_info_of r\<close> is \<open>result.get('rate_info', {})\<close>.
  \<open>if d.get(k)\<close> is false when the key is absent and when its value is the empty
  string.
\<close>

definition rate_info_of :: "probe_result \<Rightarrow> string dict" where
  "rate_info_of r = (case res_rate_info r of None \<Rightarrow> [] | Some ri \<Rightarrow> ri)"

fun detect_group :: "probe_result list \<Rightarrow> string option" where
  "detect_group [] = None"
| "detect_group (r # rs) =
     (case dict_get (rate_info_of r) ''X-RateLimit-Group'' of
        None \<Rightarrow> detect_group rs
      | Some g \<Rightarrow> if g \<noteq> [] then Some g else detect_group rs)"

text \<open>
  The dictionary \<open>run_sustained_test\<close> returns. Response times are milliseconds and
  their average a rational number.
\<close>

record summary =
  total_requests :: nat
  success_count :: nat
  rate_limited_count :: nat
  error_count :: nat
  detected_group :: "string option"
  avg_response_time :: rat
  results :: "probe_result list"

definition summarize :: "probe_result list \<Rightarrow> summary" where
  "summarize rs =
     (let success_count = length (filter (\<lambda>r. res_status_code r = Some 200) rs);
          rate_limited_count = length (filter (\<lambda>r. res_status_code r = Some 429) rs);
          error_count = length (filter (\<lambda>r. res_error r \<noteq> None) rs);
          detected_group = detect_group rs;
          response_times = List.map_filter res_response_time rs;
          avg_response_time =
            (if response_times \<noteq> []
             then of_nat (sum_list response_times) / of_nat (length response_times) else 0)
      in \<lparr>total_requests = length rs, success_count = success_count,
          rate_limited_count = rate_limited_count, error_count = error_count,
          detected_group = detected_group, avg_response_time = avg_response_time,
          results = rs\<rparr>)"

definition run_sustained_test ::
  "env \<Rightarrow> int \<Rightarrow> string \<Rightarrow> string \<Rightarrow> string \<Rightarrow> int \<Rightarrow> int \<Rightarrow> summary" where
  "run_sustained_test e start_time base_url api_key auth_method duration rate =
     summarize (st_results (sustained_loop e start_time base_url api_key auth_method duration rate))"

text \<open>Lines 245 to 257: the options of the advanced script and their \<open>choices\<close>.\<close>

record adv_args =
  adv_url :: string
  adv_test_type :: string
  adv_api_key :: string
  adv_auth_method :: string
  adv_rate :: int
  adv_duration :: int
  adv_method :: string

definition parse_args :: "adv_args \<Rightarrow> cli_error + adv_args" where
  "parse_args a =
     (if adv_test_type a \<in> set [''single'', ''auth-methods'', ''group-comparison'', ''sustained'', ''status'']
         \<and> adv_auth_method a \<in> set [''v4'', ''v2'', ''presigned'', ''query_v2'', ''custom'']
         \<and> adv_method a \<in> set [''GET'', ''PUT'', ''POST'']
      then Inr a else Inl UsageError)"

section \<open>The two loops with windows that end late\<close>

definition load_loop_late ::
  "(nat \<Rightarrow> nat) \<Rightarrow> env \<Rightarrow> int \<Rightarrow> string \<Rightarrow> string option \<Rightarrow> string \<Rightarrow> int \<Rightarrow> int \<Rightarrow> engine_state" where
  "load_loop_late late e start_time base_url api_key method requests_per_second duration =
     window_loop_late late 20 (env_latency e)
       (\<lambda>i now. test_request_basic (env_serve e i) now base_url api_key method ''/test-bucket/'')
       requests_per_second start_time duration
       \<lparr>st_clock = start_time, st_submitted = 0, st_results = [], st_windows = []\<rparr>"

definition run_load_test_late ::
  "(nat \<Rightarrow> nat) \<Rightarrow> env \<Rightarrow> int \<Rightarrow> string \<Rightarrow> string option \<Rightarrow> string \<Rightarrow> int \<Rightarrow> int
     \<Rightarrow> probe_result list" where
  "run_load_test_late late e start_time base_url api_key method requests_per_second duration =
     st_results
       (load_loop_late late e start_time base_url api_key method requests_per_second duration)"

definition sustained_loop_late ::
  "(nat \<Rightarrow> nat) \<Rightarrow> env \<Rightarrow> int \<Rightarrow> string \<Rightarrow> string \<Rightarrow> string \<Rightarrow> int \<Rightarrow> int \<Rightarrow> engine_state" where
  "sustained_loop_late late e start_time base_url api_key auth_method duration rate =
     window_loop_late late 10 (env_latency e)
       (\<lambda>i now. test_request (env_utc e i) (env_serve e i) now base_url auth_method api_key
                   ''GET'' ''/test-bucket/test-object'')
       rate start_time duration
       \<lparr>st_clock = start_time, st_submitted = 0, st_results = [], st_windows = []\<rparr>"

definition run_sustained_test_late ::
  "(nat \<Rightarrow> nat) \<Rightarrow> env \<Rightarrow> int \<Rightarrow> string \<Rightarrow> string \<Rightarrow> string \<Rightarrow> int \<Rightarrow> int \<Rightarrow> summary" where
  "run_sustained_test_late late e start_time base_url api_key auth_method duration rate =
     summarize
       (st_results (sustained_loop_late late e start_time base_url api_key auth_method duration rate))"

section \<open>test_individual_limits.py: test_api_key\<close>

datatype py_error = IndexError | KeyError | ValueError | WrongType

text \<open>
  The dictionary appended for one request: the status and three headers read from
  \<open>response.headers\<close> with \<open>get\<close>, or the text of the exception.
\<close>

record key_probe =
  kp_status :: "int option"
  kp_current_rate :: "string option"
  kp_group :: "string option"
  kp_limit :: "string option"
  kp_error :: "string option"

fun probe_once :: "http_reply \<Rightarrow> key_probe" where
  "probe_once (Response sc hs el) =
     \<lparr>kp_status = Some sc,
      kp_current_rate = Some (ci_get_default hs ''x-ratelimit-current-per-minute'' ''N/A''),
      kp_group = Some (ci_get_default hs ''x-ratelimit-group'' ''N/A''),
      kp_limit = Some (ci_get_default hs ''x-ratelimit-limit-per-minute'' ''N/A''),
      kp_error = None\<rparr>"
| "probe_once (Raised e) =
     \<lparr>kp_status = None, kp_current_rate = None, kp_group = None, kp_limit = None,
      kp_error = Some e\<rparr>"

text \<open>
  The dictionary returned. \<open>kr_last_status\<close> is \<open>None\<close> where the source puts the
  string \<open>ERROR\<close>. \<open>results[-1]\<close> raises \<open>IndexError\<close> on an empty list.
\<close>

record key_report =
  kr_api_key :: string
  kr_expected_group :: string
  kr_detected_group :: string
  kr_final_count :: string
  kr_limit :: string
  kr_last_status :: "int option"

definition test_api_key ::
  "(nat \<Rightarrow> http_request \<Rightarrow> http_reply) \<Rightarrow> string \<Rightarrow> string \<Rightarrow> int \<Rightarrow> py_error + key_report" where
  "test_api_key serve api_key expected_group requests_to_send =
     (let headers = [(''Authorization'', ''AWS '' @ api_key @ '':signature'')];
          results =
            map (\<lambda>i. probe_once (serve i
                   \<lparr>req_method = ''GET'', req_url = ''http://localhost/bucket/object'',
                    req_headers = headers, req_params = []\<rparr>))
              [0 ..< nat requests_to_send]
      in if results = [] then Inl IndexError
         else
           (let last_result = last results
            in Inr \<lparr>kr_api_key = api_key, kr_expected_group = expected_group,
                    kr_detected_group = (case kp_group last_result of None \<Rightarrow> ''ERROR'' | Some g \<Rightarrow> g),
                    kr_final_count = (case kp_current_rate last_result of None \<Rightarrow> ''ERROR'' | Some c \<Rightarrow> c),
                    kr_limit = (case kp_limit last_result of None \<Rightarrow> ''ERROR'' | Some l \<Rightarrow> l),
                    kr_last_status = kp_status last_result\<rparr>))"

section \<open>test_rate_limiting.py: the counters of test_rate_limiting\<close>

text \<open>
  What one \<open>client.list_buckets()\<close> does: it returns (with the value of the
  \<open>x-ratelimit-remaining\<close> header, if the response has one), or raises a
  \<open>ClientError\<close> with an error code, or raises another exception.
  \<open>parse_int\<close> is Python's \<open>int\<close> on a string; \<open>None\<close> is its \<open>ValueError\<close>,
  which the handler for \<open>Exception\<close> counts as an error.
\<close>

datatype s3_outcome = Listed "string option" | ClientError string | OtherError string

record tier_counts =
  successful :: nat
  rate_limited :: nat
  errors :: nat

definition make_request :: "(string \<Rightarrow> int option) \<Rightarrow> s3_outcome \<Rightarrow> tier_counts \<Rightarrow> tier_counts" where
  "make_request parse_int outcome c =
     (case outcome of
        Listed remaining \<Rightarrow>
          (let c = c\<lparr>successful := successful c + 1\<rparr>
           in case remaining of
                None \<Rightarrow> c
              | Some v \<Rightarrow> (case parse_int v of None \<Rightarrow> c\<lparr>errors := errors c + 1\<rparr> | Some n \<Rightarrow> c))
      | ClientError code \<Rightarrow>
          if code = ''SlowDown'' then c\<lparr>rate_limited := rate_limited c + 1\<rparr>
          else c\<lparr>errors := errors c + 1\<rparr>
      | OtherError e \<Rightarrow> c\<lparr>errors := errors c + 1\<rparr>)"

definition tier_total_requests :: "tier_counts \<Rightarrow> nat" where
  "tier_total_requests c = successful c + rate_limited c + errors c"

section \<open>Sample inputs\<close>

definition sample_utc :: utc_now where
  "sample_utc = \<lparr>amz_timestamp = ''20240101T000000Z'', date_stamp = ''20240101'',
                 http_date = ''Mon, 01 Jan 2024 00:00:00 GMT''\<rparr>"

text \<open>A network that answers every request at once with the given status and headers.\<close>

definition instant_env :: "int \<Rightarrow> header_dict \<Rightarrow> env" where
  "instant_env sc hs =
     \<lparr>env_serve = (\<lambda>i req. Response sc hs 0), env_latency = (\<lambda>i. 0), env_utc = (\<lambda>i. sample_utc)\<rparr>"

text \<open>
  A network that throttles every request; the first call of the run takes \<open>l\<close>
  milliseconds, every other call 100.
\<close>

definition slow_first_env :: "nat \<Rightarrow> env" where
  "slow_first_env l =
     \<lparr>env_serve = (\<lambda>i req. Response 429 [(''X-RateLimit-Group'', ''basic'')]
                               (if i = 0 then l else 100)),
      env_latency = (\<lambda>i. if i = 0 then l else 100), env_utc = (\<lambda>i. sample_utc)\<rparr>"

definition result_with_group :: "string \<Rightarrow> probe_result" where
  "result_with_group g =
     \<lparr>res_status_code = Some 200, res_rate_info = Some [(''X-RateLimit-Group'', g)],
      res_headers = None, res_error = None, res_api_key = Some ''test-premium-key'',
      res_auth_method = Some ''v4'', res_method = ''GET'', res_timestamp = 0,
      res_response_time = Some 0\<rparr>"

definition result_without_group :: probe_result where
  "result_without_group =
     \<lparr>res_status_code = Some 200, res_rate_info = Some [(''X-Auth-Method'', ''v4'')],
      res_headers = None, res_error = None, res_api_key = Some ''test-premium-key'',
      res_auth_method = Some ''v4'', res_method = ''GET'', res_timestamp = 0,
      res_response_time = Some 0\<rparr>"

definition load_args :: "int \<Rightarrow> int \<Rightarrow> cli_args" where
  "load_args rate duration =
     \<lparr>arg_url = ''http://localhost'', arg_api_key = ''test-key'', arg_method = ''GET'',
      arg_rate = rate, arg_duration = duration, arg_test_type = ''load''\<rparr>"

definition sustained_args :: "string \<Rightarrow> adv_args" where
  "sustained_args am =
     \<lparr>adv_url = ''http://localhost'', adv_test_type = ''sustained'',
      adv_api_key = ''test-premium-key'', adv_auth_method = am, adv_rate = 20,
      adv_duration = 60, adv_method = ''GET''\<rparr>"

section \<open>The detected group of a sustained run\<close>

lemma detect_group_find:
  "detect_group rs =
     (case find (\<lambda>r. case dict_get (rate_info_of r) ''X-RateLimit-Group'' of
                         None \<Rightarrow> False | Some g \<Rightarrow> g \<noteq> []) rs of
        None \<Rightarrow> None
      | Some r \<Rightarrow> dict_get (rate_info_of r) ''X-RateLimit-Group'')"
  by (induction rs) (auto split: option.splits)

lemma detect_group_append:
  "detect_group rs = Some g \<Longrightarrow> detect_group (rs @ later) = Some g"
  by (induction rs) (auto split: option.splits if_splits)

text \<open>
  C10, as amended. The detected group of a sustained run is the value of
  \<open>X-RateLimit-Group\<close> in the first result, in the order of the results list, whose
  \<open>rate_info\<close> has a non-empty value under exactly that key. Once a group is
  detected, results that follow do not change it. When no result has the key, the
  detected group is \<open>None\<close>.
\<close>

theorem detected_group_first_nonempty:
  "detected_group (summarize rs) =
     (case find (\<lambda>r. case dict_get (rate_info_of r) ''X-RateLimit-Group'' of
                         None \<Rightarrow> False | Some g \<Rightarrow> g \<noteq> []) rs of
        None \<Rightarrow> None
      | Some r \<Rightarrow> dict_get (rate_info_of r) ''X-RateLimit-Group'')
   \<and> (\<forall>g later. detected_group (summarize rs) = Some g
          \<longrightarrow> detected_group (summarize (rs @ later)) = Some g)
   \<and> ((\<forall>r \<in> set rs. dict_get (rate_info_of r) ''X-RateLimit-Group'' = None)
          \<longrightarrow> detected_group (summarize rs) = None)"
proof -
  have sel: "\<And>xs. detected_group (summarize xs) = detect_group xs"
    by (simp add: summarize_def Let_def)
  have none: "(\<forall>r \<in> set rs. dict_get (rate_info_of r) ''X-RateLimit-Group'' = None)
          \<longrightarrow> detect_group rs = None"
    by (induction rs) auto
  show ?thesis
    unfolding sel using detect_group_find [of rs] detect_group_append [of rs] none by blast
qed

text \<open>
  C10, witness: the first result has the key with an empty value, the second has
  \<open>premium\<close>; a later \<open>basic\<close> changes nothing; a run whose only result lacks
  the key detects no group.
\<close>

theorem detected_group_first_nonempty_witness:
  "detected_group (summarize [result_with_group '''', result_with_group ''premium'']) = Some ''premium''
   \<and> detected_group (summarize ([result_with_group '''', result_with_group ''premium'']
        @ [result_with_group ''basic''])) = Some ''premium''
   \<and> detected_group (summarize [result_without_group]) = None"
  using detected_group_first_nonempty [of "[result_with_group '''', result_with_group ''premium'']"]
    detected_group_first_nonempty [of "[result_without_group]"]
  by (simp add: result_with_group_def result_without_group_def rate_info_of_def dict_get_def)

text \<open>
  C10, counterexample to the claim as stated: the first result whose \<open>rate_info\<close>
  contains the key has the empty string as its value, and the detected group is not taken
  from it.
\<close>

theorem detected_group_first_key_counterexample:
  "detected_group (summarize [result_with_group '''', result_with_group ''premium''])
     \<noteq> (case find (\<lambda>r. dict_get (rate_info_of r) ''X-RateLimit-Group'' \<noteq> None)
                 [result_with_group '''', result_with_group ''premium''] of
          None \<Rightarrow> None
        | Some r \<Rightarrow> dict_get (rate_info_of r) ''X-RateLimit-Group'')"
  by (simp add: summarize_def Let_def result_with_group_def rate_info_of_def dict_get_def)

section \<open>Outcome counts\<close>

lemma summarize_counts:
  assumes "\<forall>r \<in> set rs. (res_error r = None) \<noteq> (res_status_code r = None)"
  shows "success_count (summarize rs) + rate_limited_count (summarize rs) + error_count (summarize rs)
           + length (filter (\<lambda>r. res_error r = None \<and> res_status_code r \<noteq> Some 200
                                  \<and> res_status_code r \<noteq> Some 429) rs)
         = total_requests (summarize rs)"
  using assms by (induction rs) (auto simp: summarize_def Let_def)

lemma test_request_well_formed:
  "(res_error (test_request utc send now base_url auth_method api_key method path) = None)
     \<noteq> (res_status_code (test_request utc send now base_url auth_method api_key method path) = None)"
  by (simp add: test_request_def split: http_reply.splits)

lemma tier_counts_sum:
  assumes "\<forall>v. Listed (Some v) \<in> set outcomes \<longrightarrow> parse_int v \<noteq> None"
  shows "tier_total_requests (fold (make_request parse_int) outcomes c)
           = tier_total_requests c + length outcomes"
  using assms
proof (induction outcomes arbitrary: c)
  case Nil
  show ?case by simp
next
  case (Cons x xs)
  have step: "tier_total_requests (make_request parse_int x c) = tier_total_requests c + 1"
    using Cons.prems
    by (cases x) (auto simp: make_request_def tier_total_requests_def Let_def split: option.splits)
  have "tier_total_requests (fold (make_request parse_int) xs (make_request parse_int x c))
          = tier_total_requests (make_request parse_int x c) + length xs"
    using Cons.prems by (intro Cons.IH) auto
  then show ?case using step by simp
qed

text \<open>
  C1, at a failing input. One request is answered with status 404. Both
  \<open>run_sustained_test\<close> and \<open>analyze_results\<close> count one request in total and
  nothing in the success, rate-limited and error counts, so the three counts do not add
  up to the total.
\<close>

theorem other_status_in_no_bucket:
  "(let s = run_sustained_test (instant_env 404 []) 0 ''http://localhost'' ''test-premium-key'' ''v4'' 1 1
    in (total_requests s, success_count s, rate_limited_count s, error_count s)) = (1, 0, 0, 0)
   \<and> (let a = analyze_results (run_load_test (instant_env 404 []) 0 ''http://localhost''
                  (Some ''test-key'') ''GET'' 1 1)
      in (shown_total a, shown_success a, shown_rate_limited a, shown_errors a)) = (1, 0, 0, 0)"
  by code_simp

section \<open>Letter case of header names\<close>

lemma ci_get_respelled:
  assumes "\<forall>k. lower (f k) = lower k"
  shows "ci_get (map (\<lambda>(k, v). (f k, v)) hs) name = ci_get hs name"
proof -
  have eq: "map (\<lambda>(k, v). (lower k, v)) (map (\<lambda>(k, v). (f k, v)) hs) = map (\<lambda>(k, v). (lower k, v)) hs"
    using assms by (induction hs) auto
  show ?thesis by (simp only: ci_get_def eq)
qed

text \<open>
  C7, at a failing input. Two responses differ only in the letter case of the name of
  one header. \<open>run_sustained_test\<close> detects the group \<open>premium\<close> from the first
  and no group from the second, while \<open>test_api_key\<close>, which reads
  \<open>response.headers\<close> itself, detects \<open>premium\<close> from both.
\<close>

theorem header_case_changes_detected_group:
  "detected_group (run_sustained_test (instant_env 200 [(''X-RateLimit-Group'', ''premium'')]) 0
      ''http://localhost'' ''test-premium-key'' ''v4'' 1 1) = Some ''premium''
   \<and> detected_group (run_sustained_test (instant_env 200 [(''x-ratelimit-group'', ''premium'')]) 0
      ''http://localhost'' ''test-premium-key'' ''v4'' 1 1) = None
   \<and> map_sum id kr_detected_group
        (test_api_key (env_serve (instant_env 200 [(''X-RateLimit-Group'', ''premium'')]))
           ''test-premium-key'' ''premium'' 1) = Inr ''premium''
   \<and> map_sum id kr_detected_group
        (test_api_key (env_serve (instant_env 200 [(''x-ratelimit-group'', ''premium'')]))
           ''test-premium-key'' ''premium'' 1) = Inr ''premium''"
  by code_simp

section \<open>Unknown authentication schemes\<close>

text \<open>
  C5, as amended. For an authentication scheme outside the five known names, the
  argument parser of the advanced script ends with a usage error. \<open>test_request\<close>
  itself has no error for it: it sends the request with the \<open>User-Agent\<close> header
  alone and no query parameters, and returns the outcome of that request.
\<close>

theorem unknown_scheme_gate_and_request:
  assumes "auth_method \<notin> set [''v4'', ''v2'', ''presigned'', ''query_v2'', ''custom'']"
  shows "parse_args (a\<lparr>adv_auth_method := auth_method\<rparr>) = Inl UsageError
    \<and> build_request utc base_url auth_method api_key method path =
        \<lparr>req_method = method, req_url = base_url @ path,
         req_headers = [(''User-Agent'', ''test-client/2.0'')], req_params = []\<rparr>
    \<and> res_error (test_request utc send now base_url auth_method api_key method path) =
        (case send \<lparr>req_method = method, req_url = base_url @ path,
                    req_headers = [(''User-Agent'', ''test-client/2.0'')], req_params = []\<rparr> of
           Response sc hs el \<Rightarrow> None | Raised e \<Rightarrow> Some e)
    \<and> res_status_code (test_request utc send now base_url auth_method api_key method path) =
        (case send \<lparr>req_method = method, req_url = base_url @ path,
                    req_headers = [(''User-Agent'', ''test-client/2.0'')], req_params = []\<rparr> of
           Response sc hs el \<Rightarrow> Some sc | Raised e \<Rightarrow> None)"
proof -
  have req: "build_request utc base_url auth_method api_key method path =
        \<lparr>req_method = method, req_url = base_url @ path,
         req_headers = [(''User-Agent'', ''test-client/2.0'')], req_params = []\<rparr>"
    using assms by (simp add: build_request_def)
  have gate: "parse_args (a\<lparr>adv_auth_method := auth_method\<rparr>) = Inl UsageError"
    using assms by (simp add: parse_args_def)
  show ?thesis
    using gate req by (simp add: test_request_def split: http_reply.splits)
qed

text \<open>
  C5, witness: the scheme \<open>bogus\<close>.
\<close>

theorem unknown_scheme_gate_and_request_witness:
  "''bogus'' \<notin> set [''v4'', ''v2'', ''presigned'', ''query_v2'', ''custom'']
   \<and> parse_args (sustained_args ''bogus'') = Inl UsageError
   \<and> req_headers (build_request sample_utc ''http://localhost'' ''bogus'' ''test-premium-key''
        ''GET'' ''/test-bucket/test-object'') = [(''User-Agent'', ''test-client/2.0'')]"
proof -
  have h: "''bogus'' \<notin> set [''v4'', ''v2'', ''presigned'', ''query_v2'', ''custom'']" by simp
  have a: "(sustained_args ''bogus'')\<lparr>adv_auth_method := ''bogus''\<rparr> = sustained_args ''bogus''"
    by (simp add: sustained_args_def)
  show ?thesis
    using h a unknown_scheme_gate_and_request [OF h, of "sustained_args ''bogus''" sample_utc
        "''http://localhost''" "''test-premium-key''" "''GET''" "''/test-bucket/test-object''"]
    by simp
qed

text \<open>
  C5, counterexample to the claim as stated. The network answers 200 to a request that
  carries no credentials and raises otherwise. With the scheme \<open>bogus\<close>,
  \<open>test_request\<close> returns status 200: the request was sent, without credentials, and
  no configuration error was raised.
\<close>

theorem unknown_scheme_request_sent_counterexample:
  "res_status_code
     (test_request sample_utc
        (\<lambda>req. if req_headers req = [(''User-Agent'', ''test-client/2.0'')] \<and> req_params req = []
                then Response 200 [] 0 else Raised ''credentials attached'')
        0 ''http://localhost'' ''bogus'' ''test-premium-key'' ''GET'' ''/test-bucket/test-object'')
   = Some 200"
  by (simp add: test_request_def build_request_def)

section \<open>Invariants of the window loop\<close>

lemma window_loop_invariant:
  fixes s :: engine_state and I :: "engine_state \<Rightarrow> bool"
  assumes "I s"
    and "\<And>s. I s \<Longrightarrow> st_clock s - start_time < duration * second \<Longrightarrow> I (run_batch W lat call rate s)"
  shows "I (window_loop W lat call rate start_time duration s)
     \<and> \<not> st_clock (window_loop W lat call rate start_time duration s) - start_time < duration * second"
  using assms
proof (induction W lat call rate start_time duration s rule: window_loop.induct)
  case (1 W lat call rate start_time duration s)
  note step = "1.prems"(2)
  show ?case
  proof (cases "st_clock s - start_time < duration * second")
    case True
    have "I (run_batch W lat call rate s)"
      using step "1.prems"(1) True by blast
    then have "I (window_loop W lat call rate start_time duration (run_batch W lat call rate s))
       \<and> \<not> st_clock (window_loop W lat call rate start_time duration (run_batch W lat call rate s))
             - start_time < duration * second"
      using "1.IH" True step by blast
    then show ?thesis
      using True by (subst (1 2) window_loop.simps) simp
  next
    case False
    then show ?thesis
      using "1.prems"(1) by (subst (1 2) window_loop.simps) simp
  qed
qed

section \<open>A rate of zero or less\<close>

lemma run_batch_no_requests:
  assumes "rate \<le> 0"
  shows "run_batch W lat call rate s =
     \<lparr>st_clock = st_clock s + second, st_submitted = st_submitted s, st_results = st_results s,
      st_windows = st_windows s @
        [\<lparr>w_start = st_clock s, w_submitted = 0, w_done = st_clock s, w_slept = second\<rparr>]\<rparr>"
  using assms by (simp add: run_batch_def Let_def second_def)

lemma window_loop_no_requests:
  assumes "rate \<le> 0"
    and s_def: "s = window_loop W lat call rate t D
                  \<lparr>st_clock = t, st_submitted = 0, st_results = [], st_windows = []\<rparr>"
  shows "st_clock s = t + max 0 D * second \<and> st_submitted s = 0 \<and> st_results s = []
     \<and> length (st_windows s) = nat D
     \<and> (\<forall>w \<in> set (st_windows s). w_submitted w = 0 \<and> w_slept w = second)"
proof -
  define I :: "engine_state \<Rightarrow> bool" where "I = (\<lambda>s. st_submitted s = 0 \<and> st_results s = []
      \<and> (\<exists>k. 0 \<le> k \<and> k \<le> max 0 D \<and> st_clock s = t + k * second \<and> length (st_windows s) = nat k)
      \<and> (\<forall>w \<in> set (st_windows s). w_submitted w = 0 \<and> w_slept w = second))"
  have init: "I \<lparr>st_clock = t, st_submitted = 0, st_results = [], st_windows = []\<rparr>"
    unfolding I_def by (auto intro: exI [of _ 0])
  have step: "I (run_batch W lat call rate u)" if "I u" and "st_clock u - t < D * second" for u
  proof -
    from that(1) obtain k where k: "0 \<le> k" "k \<le> max 0 D" "st_clock u = t + k * second"
      "length (st_windows u) = nat k"
      unfolding I_def by blast
    from that(2) k(3) have "k * second < D * second" by simp
    then have "k < D" by (simp add: second_def)
    then have "0 \<le> k + 1 \<and> k + 1 \<le> max 0 D
        \<and> st_clock u + second = t + (k + 1) * second
        \<and> Suc (length (st_windows u)) = nat (k + 1)"
      using k by (simp add: algebra_simps nat_add_distrib)
    then show ?thesis
      using that(1) unfolding I_def run_batch_no_requests [OF assms(1)]
      by (auto intro: exI [of _ "k + 1"])
  qed
  have fin: "I s \<and> \<not> st_clock s - t < D * second"
    unfolding s_def by (rule window_loop_invariant [where I = I, OF init step])
  then obtain k where k: "0 \<le> k" "k \<le> max 0 D" "st_clock s = t + k * second"
      "length (st_windows s) = nat k"
    unfolding I_def by blast
  from fin k(3) have "\<not> k * second < D * second" by simp
  then have "D \<le> k" by (simp add: second_def)
  with k(1,2) have "k = max 0 D" by simp
  with k fin show ?thesis unfolding I_def by auto
qed

text \<open>
  C6, as amended. With a rate of zero or less, \<open>run_load_test\<close> raises no error
  and submits no request: the loop runs one window per second until the duration has
  elapsed, sleeping a full second in each, and returns the empty list, which
  \<open>main\<close> analyses and prints as four zero counts.
\<close>

theorem nonpositive_rate_no_error:
  assumes "rate \<le> 0"
  shows "(let s = load_loop e t base_url api_key method rate D
          in st_clock s = t + max 0 D * second \<and> st_submitted s = 0 \<and> st_results s = []
             \<and> length (st_windows s) = nat D
             \<and> (\<forall>w \<in> set (st_windows s). w_submitted w = 0 \<and> w_slept w = second))
     \<and> run_load_test e t base_url api_key method rate D = []
     \<and> (arg_rate args = rate \<and> arg_method args \<in> set [''GET'', ''PUT'']
          \<and> arg_test_type args = ''load''
        \<longrightarrow> main e t args =
             Inr (Load \<lparr>shown_total = 0, shown_success = 0, shown_rate_limited = 0,
                        shown_errors = 0, shown_sample = []\<rparr>))"
proof -
  have loop: "st_clock s = t + max 0 D * second \<and> st_submitted s = 0 \<and> st_results s = []
     \<and> length (st_windows s) = nat D
     \<and> (\<forall>w \<in> set (st_windows s). w_submitted w = 0 \<and> w_slept w = second)"
    if "s = load_loop e t base_url api_key method rate D" for s
    using that unfolding load_loop_def by (rule window_loop_no_requests [OF assms])
  have empty: "run_load_test e t b k m rate D' = []" for b k m D'
    using window_loop_no_requests [OF assms, of "load_loop e t b k m rate D'"]
    by (simp add: run_load_test_def load_loop_def)
  have main: "main e t args =
             Inr (Load \<lparr>shown_total = 0, shown_success = 0, shown_rate_limited = 0,
                        shown_errors = 0, shown_sample = []\<rparr>)"
    if "arg_rate args = rate" "arg_method args \<in> set [''GET'', ''PUT'']"
       "arg_test_type args = ''load''"
    using that empty [of "arg_url args" "Some (arg_api_key args)" "arg_method args" "arg_duration args"]
    by (auto simp: main_def analyze_results_def)
  show ?thesis
    using loop [OF refl] empty main by (simp add: Let_def)
qed


text \<open>
  C6, witness: a rate of -5 for two seconds.
\<close>

theorem nonpositive_rate_no_error_witness:
  "(-5::int) \<le> 0
   \<and> st_clock (load_loop (instant_env 200 []) 0 ''http://localhost'' (Some ''test-key'') ''GET'' (-5) 2) = 2000
   \<and> length (st_windows (load_loop (instant_env 200 []) 0 ''http://localhost'' (Some ''test-key'') ''GET'' (-5) 2)) = 2
   \<and> main (instant_env 200 []) 0 (load_args (-5) 2) =
        Inr (Load \<lparr>shown_total = 0, shown_success = 0, shown_rate_limited = 0,
                   shown_errors = 0, shown_sample = []\<rparr>)"
proof -
  have h: "(-5::int) \<le> 0" by simp
  show ?thesis
    using nonpositive_rate_no_error [OF h, of "instant_env 200 []" 0 "''http://localhost''"
        "Some ''test-key''" "''GET''" 2 "load_args (-5) 2"]
    by (simp add: Let_def load_args_def second_def)
qed

text \<open>
  C6, counterexample to the claim as stated: with rate 0 and a duration of three
  seconds, \<open>main\<close> ends normally with its report, after the loop has slept through
  three windows of one second each; no configuration error is raised.
\<close>

theorem zero_rate_runs_without_error_counterexample:
  "main (instant_env 200 []) 0 (load_args 0 3) =
        Inr (Load \<lparr>shown_total = 0, shown_success = 0, shown_rate_limited = 0,
                   shown_errors = 0, shown_sample = []\<rparr>)
   \<and> map w_slept (st_windows (load_loop (instant_env 200 []) 0 ''http://localhost''
        (Some ''test-key'') ''GET'' 0 3)) = [1000, 1000, 1000]
   \<and> st_clock (load_loop (instant_env 200 []) 0 ''http://localhost''
        (Some ''test-key'') ''GET'' 0 3) = 3000"
  by code_simp

section \<open>A network without latency\<close>

lemma pool_schedule_zero:
  assumes "free \<noteq> []" and "\<forall>x \<in> set free. x = t" and "\<forall>l \<in> set ls. l = 0"
  shows "pool_schedule free ls = replicate (length ls) t"
  using assms
proof (induction ls arbitrary: free)
  case Nil
  show ?case by simp
next
  case (Cons l ls)
  have "set free = {t}" using Cons.prems(1,2) by (cases free) auto
  then have m: "min_list free = t"
    using Cons.prems(1) by (simp add: min_list_Min)
  have l: "l = 0" using Cons.prems(3) by simp
  have "\<forall>x \<in> set (t # remove1 t free). x = t"
    using Cons.prems(2) by (auto dest: notin_set_remove1)
  then have "pool_schedule (t # remove1 t free) ls = replicate (length ls) t"
    using Cons.prems(3) by (intro Cons.IH) auto
  then show ?case using m l by simp
qed

lemma fold_max_replicate: "fold max (replicate n t) (t::int) = t"
  by (induction n) (simp_all add: funpow_swap1)

lemma map2_replicate:
  "map2 f xs (replicate (length xs) c) = map (\<lambda>x. f x c) xs"
  by (induction xs) auto

lemma run_batch_zero_latency:
  assumes "0 < W" and "\<forall>i. lat i = 0"
  shows "run_batch W lat call rate s =
     \<lparr>st_clock = st_clock s + second,
      st_submitted = st_submitted s + nat rate,
      st_results = st_results s
         @ map (\<lambda>i. call i (st_clock s)) [st_submitted s ..< st_submitted s + nat rate],
      st_windows = st_windows s @
        [\<lparr>w_start = st_clock s, w_submitted = nat rate, w_done = st_clock s, w_slept = second\<rparr>]\<rparr>"
proof -
  let ?idx = "[st_submitted s ..< st_submitted s + nat rate]"
  have len: "length ?idx = nat rate" by simp
  have "pool_schedule (replicate W (st_clock s)) (map lat ?idx)
        = replicate (length (map lat ?idx)) (st_clock s)"
    using assms by (intro pool_schedule_zero) auto
  then have fin: "pool_schedule (replicate W (st_clock s)) (map lat ?idx)
        = replicate (nat rate) (st_clock s)"
    by (simp only: length_map len)
  have mx: "fold max (replicate (nat rate) (st_clock s)) (st_clock s) = st_clock s"
    by (rule fold_max_replicate)
  have z: "map2 call ?idx (replicate (nat rate) (st_clock s)) = map (\<lambda>i. call i (st_clock s)) ?idx"
    using map2_replicate [of call ?idx "st_clock s"] by (simp only: len)
  have pos: "(0::int) < second" by (simp add: second_def)
  show ?thesis
    unfolding run_batch_def Let_def fin mx z using pos by simp
qed

lemma summarize_all_success:
  assumes "\<forall>r \<in> set rs. res_status_code r = Some 200 \<and> res_error r = None"
  shows "success_count (summarize rs) = length rs \<and> rate_limited_count (summarize rs) = 0
     \<and> error_count (summarize rs) = 0 \<and> total_requests (summarize rs) = length rs"
  using assms by (induction rs) (auto simp: summarize_def Let_def)



section \<open>The trace of a run\<close>

lemma length_pool_schedule: "length (pool_schedule free ls) = length ls"
  by (induction ls arbitrary: free) (simp_all add: Let_def)

lemma pool_schedule_ge:
  assumes "free \<noteq> []" and "\<forall>x \<in> set free. t \<le> x"
  shows "\<forall>y \<in> set (pool_schedule free ls). t \<le> y"
  using assms
proof (induction ls arbitrary: free)
  case Nil
  show ?case by simp
next
  case (Cons l ls)
  have "min_list free \<in> set free"
    using Cons.prems(1) by (simp add: min_list_Min)
  then have m: "t \<le> min_list free" using Cons.prems(2) by blast
  then have t: "t \<le> min_list free + int l" by simp
  have "\<forall>x \<in> set ((min_list free + int l) # remove1 (min_list free) free). t \<le> x"
    using t Cons.prems(2) by (auto dest: notin_set_remove1)
  then have "\<forall>y \<in> set (pool_schedule ((min_list free + int l) # remove1 (min_list free) free) ls). t \<le> y"
    by (intro Cons.IH) simp_all
  then show ?case using t by (simp add: Let_def)
qed

lemma fold_max_ge_mem: "x \<in> set xs \<Longrightarrow> (x::int) \<le> fold max xs a"
proof (induction xs arbitrary: a)
  case Nil
  then show ?case by simp
next
  case (Cons y ys)
  show ?case
  proof (cases "x = y")
    case True
    have "y \<le> max y a" by simp
    also have "\<dots> \<le> fold max ys (max y a)" by (rule fold_max_ge)
    finally show ?thesis using True by simp
  next
    case False
    then have "x \<in> set ys" using Cons.prems by simp
    then show ?thesis using Cons.IH by simp
  qed
qed

lemma set_map2_timestamps:
  assumes "\<And>i now. res_timestamp (call i now) = now" and "r \<in> set (map2 call is ts)"
  shows "res_timestamp r \<in> set ts"
  using assms(2)
proof -
  from assms(2) obtain i u where "(i, u) \<in> set (zip is ts)" and "r = call i u"
    by auto
  then show ?thesis using assms(1) by (auto dest: set_zip_rightD)
qed

lemma nth_concat_uniform:
  assumes "\<forall>b \<in> set bs. length b = n" and "k < length bs" and "i < n"
  shows "concat bs ! (k * n + i) = bs ! k ! i"
  using assms
proof (induction bs arbitrary: k)
  case Nil
  then show ?case by simp
next
  case (Cons b bs)
  have lb: "length b = n" using Cons.prems(1) by simp
  show ?case
  proof (cases k)
    case 0
    then show ?thesis using lb Cons.prems(3) by (simp add: nth_append)
  next
    case (Suc k')
    have "concat bs ! (k' * n + i) = bs ! k' ! i"
      using Cons.prems Suc by (intro Cons.IH) simp_all
    moreover have "(b @ concat bs) ! (n + (k' * n + i)) = concat bs ! (k' * n + i)"
      using lb by (simp add: nth_append)
    ultimately show ?thesis using Suc by (simp add: add.assoc)
  qed
qed

lemma length_concat_uniform:
  "\<forall>b \<in> set bs. length b = n \<Longrightarrow> length (concat bs) = length bs * n"
  by (induction bs) simp_all

lemma successively_nth:
  "successively P xs \<Longrightarrow> Suc k < length xs \<Longrightarrow> P (xs ! k) (xs ! Suc k)"
proof (induction P xs arbitrary: k rule: successively.induct)
  case (3 P x y xs)
  then show ?case by (cases k) simp_all
qed simp_all

lemma window_loop_late_invariant:
  fixes s :: engine_state and I :: "engine_state \<Rightarrow> bool"
  assumes "I s"
    and "\<And>s. I s \<Longrightarrow> st_clock s - start_time < duration * second
            \<Longrightarrow> I (run_batch_late late W lat call rate s)"
  shows "I (window_loop_late late W lat call rate start_time duration s)
     \<and> \<not> st_clock (window_loop_late late W lat call rate start_time duration s) - start_time
           < duration * second"
  using assms
proof (induction late W lat call rate start_time duration s rule: window_loop_late.induct)
  case (1 late W lat call rate start_time duration s)
  note step = "1.prems"(2)
  show ?case
  proof (cases "st_clock s - start_time < duration * second")
    case True
    have "I (run_batch_late late W lat call rate s)"
      using step "1.prems"(1) True by blast
    then have "I (window_loop_late late W lat call rate start_time duration
                    (run_batch_late late W lat call rate s))
       \<and> \<not> st_clock (window_loop_late late W lat call rate start_time duration
                        (run_batch_late late W lat call rate s))
             - start_time < duration * second"
      using "1.IH" True step by blast
    then show ?thesis
      using True by (subst (1 2) window_loop_late.simps) simp
  next
    case False
    then show ?thesis
      using "1.prems"(1) by (subst (1 2) window_loop_late.simps) simp
  qed
qed

lemma run_batch_late_exact: "run_batch_late (\<lambda>k. 0) W lat call rate s = run_batch W lat call rate s"
  by (simp add: run_batch_late_def Let_def)

lemma window_loop_late_exact:
  "window_loop_late (\<lambda>k. 0) W lat call rate t D s = window_loop W lat call rate t D s"
proof (induction W lat call rate t D s rule: window_loop.induct)
  case (1 W lat call rate start_time duration s)
  show ?case
  proof (cases "st_clock s - start_time < duration * second")
    case True
    then show ?thesis
      using "1.IH"
      by (subst window_loop_late.simps, subst window_loop.simps) (simp add: run_batch_late_exact)
  next
    case False
    then show ?thesis
      by (subst window_loop_late.simps, subst window_loop.simps) simp
  qed
qed

lemma trace_inv_init:
  "trace_inv late W lat call n t D
     \<lparr>st_clock = t, st_submitted = 0, st_results = [], st_windows = []\<rparr>"
  by (simp add: trace_inv_def)

lemma window_at_append:
  assumes "k < length ws" and "length rs = length ws * n"
  shows "window_at late W lat call n t D (ws @ [w]) (rs @ batch) k
          = window_at late W lat call n t D ws rs k"
proof -
  have "Suc k * n \<le> length ws * n"
    using assms(1) by (intro mult_le_mono1) simp
  then have le: "k * n + n \<le> length rs" using assms(2) by simp
  have tk: "take n (drop (k * n) (rs @ batch)) = take n (drop (k * n) rs)"
    using le by simp
  have w: "(ws @ [w]) ! k = ws ! k" using assms(1) by (simp add: nth_append)
  have w': "(ws @ [w]) ! (k - 1) = ws ! (k - 1)" using assms(1) by (simp add: nth_append)
  show ?thesis
    unfolding window_at_def tk w w' by (rule refl)
qed

lemma trace_inv_step:
  assumes inv: "trace_inv late W lat call (nat rate) t D u"
    and cond: "st_clock u - t < D * second"
  shows "trace_inv late W lat call (nat rate) t D (run_batch_late late W lat call rate u)"
proof -
  define n where "n = nat rate"
  define ws where "ws = st_windows u"
  define m where "m = length ws"
  define rs where "rs = st_results u"
  define c where "c = st_clock u"
  define idx where "idx = [m * n ..< m * n + n]"
  define fin where "fin = pool_schedule (replicate W c) (map lat idx)"
  define batch where "batch = map2 call idx fin"
  define dn where "dn = fold max fin c"
  define sl where "sl = (if dn - c < second then second - (dn - c) else 0)"
  define w where "w = \<lparr>w_start = c, w_submitted = n, w_done = dn, w_slept = sl\<rparr>"
  from inv have i1: "st_submitted u = m * n"
    and i2: "length rs = m * n"
    and i3: "c = (if m = 0 then t
                  else w_done (ws ! (m - 1)) + w_slept (ws ! (m - 1)) + int (late (m - 1)))"
    and i4: "\<forall>k < m. window_at late W lat call n t D ws rs k"
    unfolding trace_inv_def Let_def n_def ws_def m_def rs_def c_def by blast+
  have rb: "run_batch_late late W lat call rate u =
      \<lparr>st_clock = dn + sl + int (late m), st_submitted = m * n + n,
       st_results = rs @ batch, st_windows = ws @ [w]\<rparr>"
    by (simp add: run_batch_late_def run_batch_def Let_def n_def c_def idx_def fin_def
        batch_def dn_def sl_def w_def i1 [unfolded n_def] ws_def m_def rs_def)
  have len_fin: "length fin = n"
    by (simp add: fin_def length_pool_schedule idx_def)
  have len_batch: "length batch = n"
    by (simp add: batch_def len_fin idx_def)
  have sl_max: "sl = max 0 (second - (dn - c))"
    by (simp add: sl_def max_def)
  have nw: "(ws @ [w]) ! m = w" by (simp add: m_def)
  have start: "c = (if m = 0 then t
                    else w_done ((ws @ [w]) ! (m - 1)) + w_slept ((ws @ [w]) ! (m - 1))
                         + int (late (m - 1)))"
    using i3 by (auto simp: nth_append m_def)
  have tk: "take n (drop (m * n) (rs @ batch)) = batch"
    using i2 len_batch by simp
  have lt: "c - t < D * second" using cond by (simp add: c_def)
  have sel: "w_start w = c" "w_submitted w = n" "w_done w = dn" "w_slept w = sl"
    by (simp_all add: w_def)
  have new: "window_at late W lat call n t D (ws @ [w]) (rs @ batch) m"
    unfolding window_at_def Let_def nw tk sel
    using start lt sl_max
    by (intro conjI) (simp_all only: batch_def fin_def idx_def dn_def)
  have old: "window_at late W lat call n t D (ws @ [w]) (rs @ batch) k" if "k < m" for k
    using that i4 i2 window_at_append [of k ws rs n late W lat call t D w batch]
    by (simp add: m_def)
  have all: "\<forall>k < length (ws @ [w]). window_at late W lat call n t D (ws @ [w]) (rs @ batch) k"
  proof (intro allI impI)
    fix k assume "k < length (ws @ [w])"
    then have "k < m \<or> k = m" by (auto simp: m_def)
    then show "window_at late W lat call n t D (ws @ [w]) (rs @ batch) k"
      using old new by blast
  qed
  have j1: "m * n + n = length (ws @ [w]) * n" by (simp add: m_def)
  have j2: "length (rs @ batch) = length (ws @ [w]) * n"
    using i2 len_batch by (simp add: m_def)
  have j3: "dn + sl + int (late m) =
      (if length (ws @ [w]) = 0 then t
       else w_done ((ws @ [w]) ! (length (ws @ [w]) - 1))
            + w_slept ((ws @ [w]) ! (length (ws @ [w]) - 1))
            + int (late (length (ws @ [w]) - 1)))"
    by (simp add: m_def w_def)
  show ?thesis
    unfolding trace_inv_def Let_def rb n_def [symmetric]
    using j1 j2 j3 all by simp
qed

lemma window_loop_late_trace:
  assumes s_def: "s = window_loop_late late W lat call rate t D
                  \<lparr>st_clock = t, st_submitted = 0, st_results = [], st_windows = []\<rparr>"
  shows "trace_inv late W lat call (nat rate) t D s \<and> \<not> st_clock s - t < D * second"
  unfolding s_def
  by (rule window_loop_late_invariant
        [where I = "trace_inv late W lat call (nat rate) t D", OF trace_inv_init trace_inv_step])

lemma trace_window:
  assumes "trace_inv late W lat call n t D s" and "k < length (st_windows s)"
  shows "window_at late W lat call n t D (st_windows s) (st_results s) k"
  using assms unfolding trace_inv_def Let_def by blast

lemma trace_lengths:
  assumes "trace_inv late W lat call n t D s"
  shows "st_submitted s = length (st_windows s) * n"
    and "length (st_results s) = length (st_windows s) * n"
  using assms unfolding trace_inv_def Let_def by blast+

lemma trace_clock:
  assumes "trace_inv late W lat call n t D s"
  shows "st_clock s =
     (if length (st_windows s) = 0 then t
      else w_done (st_windows s ! (length (st_windows s) - 1))
           + w_slept (st_windows s ! (length (st_windows s) - 1))
           + int (late (length (st_windows s) - 1)))"
  using assms unfolding trace_inv_def Let_def by blast

lemma window_at_span:
  assumes "window_at late W lat call n t D ws rs k"
  shows "w_start (ws ! k) \<le> w_done (ws ! k)"
    and "w_start (ws ! k) + second \<le> w_done (ws ! k) + w_slept (ws ! k)"
    and "0 \<le> w_slept (ws ! k)"
proof -
  from assms have d: "w_done (ws ! k) =
      fold max (pool_schedule (replicate W (w_start (ws ! k))) (map lat [k * n ..< k * n + n]))
        (w_start (ws ! k))"
    and sl: "w_slept (ws ! k) = max 0 (second - (w_done (ws ! k) - w_start (ws ! k)))"
    unfolding window_at_def Let_def by blast+
  show "w_start (ws ! k) \<le> w_done (ws ! k)"
    by (subst d) (rule fold_max_ge)
  show "w_start (ws ! k) + second \<le> w_done (ws ! k) + w_slept (ws ! k)"
    using sl by simp
  show "0 \<le> w_slept (ws ! k)"
    using sl by simp
qed

lemma trace_next:
  assumes "trace_inv late W lat call n t D s" and "Suc k < length (st_windows s)"
  shows "w_start (st_windows s ! Suc k)
           = w_done (st_windows s ! k) + w_slept (st_windows s ! k) + int (late k)"
    and "w_start (st_windows s ! k) + second \<le> w_start (st_windows s ! Suc k)"
proof -
  have "window_at late W lat call n t D (st_windows s) (st_results s) (Suc k)"
    using assms by (rule trace_window)
  then show eq: "w_start (st_windows s ! Suc k)
           = w_done (st_windows s ! k) + w_slept (st_windows s ! k) + int (late k)"
    unfolding window_at_def Let_def by simp
  have "window_at late W lat call n t D (st_windows s) (st_results s) k"
    using assms by (intro trace_window) simp_all
  from window_at_span(2) [OF this]
  show "w_start (st_windows s ! k) + second \<le> w_start (st_windows s ! Suc k)"
    unfolding eq by simp
qed

lemma trace_first:
  assumes "trace_inv late W lat call n t D s" and "0 < length (st_windows s)"
  shows "w_start (st_windows s ! 0) = t"
  using trace_window [OF assms] unfolding window_at_def Let_def by simp

lemma trace_starts_apart:
  assumes "trace_inv late W lat call n t D s" and "k + d < length (st_windows s)"
  shows "w_start (st_windows s ! k) + int d * second \<le> w_start (st_windows s ! (k + d))"
  using assms(2)
proof (induction d)
  case 0
  show ?case by simp
next
  case (Suc d)
  have "w_start (st_windows s ! k) + int d * second \<le> w_start (st_windows s ! (k + d))"
    using Suc by simp
  moreover have "w_start (st_windows s ! (k + d)) + second \<le> w_start (st_windows s ! Suc (k + d))"
    using Suc.prems by (intro trace_next(2) [OF assms(1)]) simp
  ultimately show ?case by (simp add: algebra_simps)
qed

lemma trace_condition:
  assumes "trace_inv late W lat call n t D s" and "k < length (st_windows s)"
  shows "w_start (st_windows s ! k) - t < D * second"
  using trace_window [OF assms] unfolding window_at_def Let_def by blast

lemma trace_count:
  assumes "trace_inv late W lat call n t D s"
  shows "int (length (st_windows s)) \<le> max 0 D"
proof (cases "length (st_windows s)")
  case 0
  then show ?thesis by simp
next
  case (Suc m)
  have lt: "0 + m < length (st_windows s)" using Suc by simp
  have "w_start (st_windows s ! 0) + int m * second \<le> w_start (st_windows s ! (0 + m))"
    by (rule trace_starts_apart [OF assms lt])
  moreover have "w_start (st_windows s ! 0) = t"
    using Suc by (intro trace_first [OF assms]) simp
  moreover have "w_start (st_windows s ! (0 + m)) - t < D * second"
    using lt by (rule trace_condition [OF assms])
  ultimately have "int m * second < D * second" by simp
  then have "int m < D" by (simp add: second_def)
  then show ?thesis using Suc by simp
qed

lemma trace_block:
  assumes "trace_inv late W lat call n t D s" and "k < length (st_windows s)"
  shows "take n (drop (k * n) (st_results s)) =
     map2 call [k * n ..< k * n + n]
       (pool_schedule (replicate W (w_start (st_windows s ! k))) (map lat [k * n ..< k * n + n]))"
  using trace_window [OF assms] unfolding window_at_def Let_def by blast

lemma trace_result:
  assumes "trace_inv late W lat call n t D s" and "k < length (st_windows s)" and "i < n"
  shows "st_results s ! (k * n + i) =
     call (k * n + i)
       (pool_schedule (replicate W (w_start (st_windows s ! k)))
          (map lat [k * n ..< k * n + n]) ! i)"
proof -
  let ?fin = "pool_schedule (replicate W (w_start (st_windows s ! k))) (map lat [k * n ..< k * n + n])"
  have "Suc k * n \<le> length (st_windows s) * n"
    using assms(2) by (intro mult_le_mono1) simp
  then have le: "k * n + n \<le> length (st_results s)"
    using trace_lengths(2) [OF assms(1)] by simp
  have "st_results s ! (k * n + i) = take n (drop (k * n) (st_results s)) ! i"
    using assms(3) le by simp
  also have "\<dots> = map2 call [k * n ..< k * n + n] ?fin ! i"
    by (simp only: trace_block [OF assms(1,2)])
  also have "\<dots> = call (k * n + i) (?fin ! i)"
    using assms(3) by (simp add: length_pool_schedule)
  finally show ?thesis .
qed

lemma trace_timestamp:
  assumes "trace_inv late W lat call n t D s" and "k < length (st_windows s)" and "i < n"
    and W: "0 < W" and ts: "\<And>i now. res_timestamp (call i now) = now"
  shows "w_start (st_windows s ! k) \<le> res_timestamp (st_results s ! (k * n + i))"
    and "res_timestamp (st_results s ! (k * n + i)) \<le> w_done (st_windows s ! k)"
proof -
  let ?c = "w_start (st_windows s ! k)"
  let ?fin = "pool_schedule (replicate W ?c) (map lat [k * n ..< k * n + n])"
  have r: "res_timestamp (st_results s ! (k * n + i)) = ?fin ! i"
    by (simp only: trace_result [OF assms(1,2,3)] ts)
  have mem: "?fin ! i \<in> set ?fin"
    using assms(3) by (intro nth_mem) (simp add: length_pool_schedule)
  have ge: "\<forall>y \<in> set ?fin. ?c \<le> y"
    using W by (intro pool_schedule_ge) simp_all
  have d: "w_done (st_windows s ! k) = fold max ?fin ?c"
    using trace_window [OF assms(1,2)] unfolding window_at_def Let_def by blast
  show "?c \<le> res_timestamp (st_results s ! (k * n + i))"
    unfolding r using ge mem by blast
  show "res_timestamp (st_results s ! (k * n + i)) \<le> w_done (st_windows s ! k)"
    unfolding r d using mem by (rule fold_max_ge_mem)
qed

lemma test_request_timestamp:
  "res_timestamp (test_request utc send now base_url auth_method api_key method path) = now"
  by (simp add: test_request_def split: http_reply.splits)

lemma test_request_basic_timestamp:
  "res_timestamp (test_request_basic send now base_url api_key method path) = now"
  by (simp add: test_request_basic_def split: http_reply.splits)

lemma window_loop_late_reading:
  assumes s_def: "s = window_loop_late late W lat call rate t D
                  \<lparr>st_clock = t, st_submitted = 0, st_results = [], st_windows = []\<rparr>"
    and W: "0 < W" and ts: "\<And>i now. res_timestamp (call i now) = now"
  shows "(let ws = st_windows s; rs = st_results s; n = nat rate; m = length ws
      in length rs = m * n \<and> st_submitted s = m * n \<and> int m \<le> max 0 D
         \<and> st_clock s = (if m = 0 then t
                          else w_done (ws ! (m - 1)) + w_slept (ws ! (m - 1)) + int (late (m - 1)))
         \<and> \<not> st_clock s - t < D * second
         \<and> (\<forall>k < m.
               w_submitted (ws ! k) = n
             \<and> w_start (ws ! k) - t < D * second
             \<and> w_start (ws ! k) =
                 (if k = 0 then t
                  else w_done (ws ! (k - 1)) + w_slept (ws ! (k - 1)) + int (late (k - 1)))
             \<and> take n (drop (k * n) rs) =
                 map2 call [k * n ..< k * n + n]
                   (pool_schedule (replicate W (w_start (ws ! k))) (map lat [k * n ..< k * n + n]))
             \<and> w_done (ws ! k) =
                 fold max
                   (pool_schedule (replicate W (w_start (ws ! k))) (map lat [k * n ..< k * n + n]))
                   (w_start (ws ! k))
             \<and> (\<forall>i < n. w_start (ws ! k) \<le> res_timestamp (rs ! (k * n + i))
                        \<and> res_timestamp (rs ! (k * n + i)) \<le> w_done (ws ! k))
             \<and> w_slept (ws ! k) = max 0 (second - (w_done (ws ! k) - w_start (ws ! k)))
             \<and> (Suc k < m \<longrightarrow> w_start (ws ! k) + second \<le> w_start (ws ! Suc k))))"
proof -
  have inv: "trace_inv late W lat call (nat rate) t D s"
    and stop: "\<not> st_clock s - t < D * second"
    using window_loop_late_trace [OF s_def] by blast+
  have per: "w_submitted (st_windows s ! k) = nat rate
             \<and> w_start (st_windows s ! k) - t < D * second
             \<and> w_start (st_windows s ! k) =
                 (if k = 0 then t
                  else w_done (st_windows s ! (k - 1)) + w_slept (st_windows s ! (k - 1))
                       + int (late (k - 1)))
             \<and> take (nat rate) (drop (k * nat rate) (st_results s)) =
                 map2 call [k * nat rate ..< k * nat rate + nat rate]
                   (pool_schedule (replicate W (w_start (st_windows s ! k)))
                      (map lat [k * nat rate ..< k * nat rate + nat rate]))
             \<and> w_done (st_windows s ! k) =
                 fold max
                   (pool_schedule (replicate W (w_start (st_windows s ! k)))
                      (map lat [k * nat rate ..< k * nat rate + nat rate]))
                   (w_start (st_windows s ! k))
             \<and> (\<forall>i < nat rate.
                    w_start (st_windows s ! k) \<le> res_timestamp (st_results s ! (k * nat rate + i))
                  \<and> res_timestamp (st_results s ! (k * nat rate + i)) \<le> w_done (st_windows s ! k))
             \<and> w_slept (st_windows s ! k)
                 = max 0 (second - (w_done (st_windows s ! k) - w_start (st_windows s ! k)))
             \<and> (Suc k < length (st_windows s)
                  \<longrightarrow> w_start (st_windows s ! k) + second \<le> w_start (st_windows s ! Suc k))"
    if k: "k < length (st_windows s)" for k
  proof -
    have at: "window_at late W lat call (nat rate) t D (st_windows s) (st_results s) k"
      using inv k by (rule trace_window)
    have stamps: "\<forall>i < nat rate.
                    w_start (st_windows s ! k) \<le> res_timestamp (st_results s ! (k * nat rate + i))
                  \<and> res_timestamp (st_results s ! (k * nat rate + i)) \<le> w_done (st_windows s ! k)"
      using trace_timestamp [OF inv k _ W ts] by blast
    have nxt: "Suc k < length (st_windows s)
                  \<longrightarrow> w_start (st_windows s ! k) + second \<le> w_start (st_windows s ! Suc k)"
      using trace_next(2) [OF inv] by blast
    show ?thesis
      using at stamps nxt unfolding window_at_def Let_def by blast
  qed
  show ?thesis
    unfolding Let_def
    using trace_lengths [OF inv] trace_count [OF inv] trace_clock [OF inv] stop per
    by blast
qed

section \<open>Batch, then align\<close>

text \<open>
  C2. The loop of \<open>run_load_test\<close> (a pool of 20 workers) and the loop of
  \<open>run_sustained_test\<close> (a pool of 10), at any rate and with sleeps that may return
  late. A run is a sequence of at most \<open>D\<close> windows; the condition of the loop held
  when each window began and fails when the run ends. Window \<open>k\<close> submitted exactly
  \<open>rate\<close> calls, those numbered from \<open>k * rate\<close>, to the pool, all of whose
  workers were idle. Its results are the next \<open>rate\<close> entries of the results list, in
  order of submission, each stamped with the time at which the pool completed it, between
  the start of the window and the moment the last call of the window completed
  (\<open>w_done\<close>); only then did the loop go on, and it asked to sleep for
  \<open>max 0 (1 s - elapsed)\<close>. The next window starts when that sleep has returned, at
  once if the completions took one second or more, and never less than one second after
  the start of the window before it; it submits \<open>rate\<close> calls again, so nothing is
  caught up.
\<close>

theorem batch_then_align:
  assumes "s = load_loop_late late e t base_url api_key method rate D \<and> W = 20
             \<and> call = (\<lambda>i now. test_request_basic (env_serve e i) now base_url api_key method
                                  ''/test-bucket/'')
         \<or> s = sustained_loop_late late e t base_url key auth_method D rate \<and> W = 10
             \<and> call = (\<lambda>i now. test_request (env_utc e i) (env_serve e i) now base_url auth_method
                                  key ''GET'' ''/test-bucket/test-object'')"
  shows "(let ws = st_windows s; rs = st_results s; n = nat rate; m = length ws
      in length rs = m * n \<and> st_submitted s = m * n \<and> int m \<le> max 0 D
         \<and> st_clock s = (if m = 0 then t
                          else w_done (ws ! (m - 1)) + w_slept (ws ! (m - 1)) + int (late (m - 1)))
         \<and> \<not> st_clock s - t < D * second
         \<and> (\<forall>k < m.
               w_submitted (ws ! k) = n
             \<and> w_start (ws ! k) - t < D * second
             \<and> w_start (ws ! k) =
                 (if k = 0 then t
                  else w_done (ws ! (k - 1)) + w_slept (ws ! (k - 1)) + int (late (k - 1)))
             \<and> take n (drop (k * n) rs) =
                 map2 call [k * n ..< k * n + n]
                   (pool_schedule (replicate W (w_start (ws ! k)))
                      (map (env_latency e) [k * n ..< k * n + n]))
             \<and> w_done (ws ! k) =
                 fold max
                   (pool_schedule (replicate W (w_start (ws ! k)))
                      (map (env_latency e) [k * n ..< k * n + n]))
                   (w_start (ws ! k))
             \<and> (\<forall>i < n. w_start (ws ! k) \<le> res_timestamp (rs ! (k * n + i))
                        \<and> res_timestamp (rs ! (k * n + i)) \<le> w_done (ws ! k))
             \<and> w_slept (ws ! k) = max 0 (second - (w_done (ws ! k) - w_start (ws ! k)))
             \<and> (Suc k < m \<longrightarrow> w_start (ws ! k) + second \<le> w_start (ws ! Suc k))))"
  using assms
proof (elim disjE conjE)
  assume s: "s = load_loop_late late e t base_url api_key method rate D" and W: "W = 20"
    and c: "call = (\<lambda>i now. test_request_basic (env_serve e i) now base_url api_key method
                                  ''/test-bucket/'')"
  have pos: "(0::nat) < 20" by simp
  show ?thesis
    unfolding W c
    by (rule window_loop_late_reading [OF s [unfolded load_loop_late_def] pos])
       (rule test_request_basic_timestamp)
next
  assume s: "s = sustained_loop_late late e t base_url key auth_method D rate" and W: "W = 10"
    and c: "call = (\<lambda>i now. test_request (env_utc e i) (env_serve e i) now base_url auth_method
                                  key ''GET'' ''/test-bucket/test-object'')"
  have pos: "(0::nat) < 10" by simp
  show ?thesis
    unfolding W c
    by (rule window_loop_late_reading [OF s [unfolded sustained_loop_late_def] pos])
       (rule test_request_timestamp)
qed

text \<open>
  C2, witness: two requests per second for two seconds against a network whose first
  call takes 1.2 seconds, each window ending 5 milliseconds late. The first window
  asks for no sleep, and the second starts at 1205.
\<close>

theorem batch_then_align_witness:
  "(let s = sustained_loop_late (\<lambda>k. 5) (slow_first_env 1200) 0 ''http://localhost''
              ''test-basic-key'' ''v4'' 2 2
    in length (st_windows s) = 2 \<and> length (st_results s) = 4 \<and> st_submitted s = 4
       \<and> w_start (st_windows s ! 0) = 0 \<and> w_done (st_windows s ! 0) = 1200
       \<and> w_slept (st_windows s ! 0) = 0
       \<and> w_start (st_windows s ! 1) = 1205 \<and> w_done (st_windows s ! 1) = 1305
       \<and> w_slept (st_windows s ! 1) = 900 \<and> w_submitted (st_windows s ! 1) = 2
       \<and> st_clock s = 2210
       \<and> 1205 \<le> res_timestamp (st_results s ! 3) \<and> res_timestamp (st_results s ! 3) \<le> 1305)"
proof -
  define s where "s = sustained_loop_late (\<lambda>k. 5) (slow_first_env 1200) 0 ''http://localhost''
              ''test-basic-key'' ''v4'' 2 2"
  have len: "length (st_windows s) = 2"
    and w0: "w_start (st_windows s ! 0) = 0" "w_done (st_windows s ! 0) = 1200"
    and w1: "w_done (st_windows s ! 1) = 1305"
    unfolding s_def by code_simp+
  have "s = sustained_loop_late (\<lambda>k. 5) (slow_first_env 1200) 0 ''http://localhost''
              ''test-basic-key'' ''v4'' 2 2 \<and> (10::nat) = 10
         \<and> (\<lambda>i now. test_request (env_utc (slow_first_env 1200) i) (env_serve (slow_first_env 1200) i)
                  now ''http://localhost'' ''v4'' ''test-basic-key'' ''GET'' ''/test-bucket/test-object'')
           = (\<lambda>i now. test_request (env_utc (slow_first_env 1200) i) (env_serve (slow_first_env 1200) i)
                  now ''http://localhost'' ''v4'' ''test-basic-key'' ''GET'' ''/test-bucket/test-object'')"
    by (simp add: s_def)
  note r = batch_then_align [OF disjI2, OF this, unfolded Let_def]
  note per = r [THEN conjunct2, THEN conjunct2, THEN conjunct2, THEN conjunct2, THEN conjunct2,
                rule_format]
  have k0: "(0::nat) < length (st_windows s)" and k1: "(1::nat) < length (st_windows s)"
    by (simp_all add: len)
  note c2 = conjunct2
  note a0 = per [OF k0] and a1 = per [OF k1]
  have lr: "length (st_results s) = 4"
    using r [THEN conjunct1] len by simp
  have sb: "st_submitted s = 4"
    using r [THEN c2, THEN conjunct1] len by simp
  have s0: "w_slept (st_windows s ! 0) = 0"
    using a0 [THEN c2, THEN c2, THEN c2, THEN c2, THEN c2, THEN c2, THEN conjunct1] w0
    by (simp add: second_def)
  have st1: "w_start (st_windows s ! 1) = 1205"
    using a1 [THEN c2, THEN c2, THEN conjunct1] w0 s0 by simp
  have s1: "w_slept (st_windows s ! 1) = 900"
    using a1 [THEN c2, THEN c2, THEN c2, THEN c2, THEN c2, THEN c2, THEN conjunct1] st1 w1
    by (simp add: second_def)
  have sub1: "w_submitted (st_windows s ! 1) = 2"
    using a1 [THEN conjunct1] by simp
  have ck: "st_clock s = 2210"
    using r [THEN c2, THEN c2, THEN c2, THEN conjunct1] len w1 s1 by simp
  have i1: "(1::nat) < nat 2" by simp
  have "w_start (st_windows s ! 1) \<le> res_timestamp (st_results s ! (1 * nat 2 + 1))
      \<and> res_timestamp (st_results s ! (1 * nat 2 + 1)) \<le> w_done (st_windows s ! 1)"
    using a1 [THEN c2, THEN c2, THEN c2, THEN c2, THEN c2, THEN conjunct1, rule_format, OF i1] .
  then have ts: "1205 \<le> res_timestamp (st_results s ! 3) \<and> res_timestamp (st_results s ! 3) \<le> 1305"
    unfolding st1 w1 by (simp add: numeral_3_eq_3)
  show ?thesis
    unfolding Let_def s_def [symmetric]
    using len lr sb w0 s0 st1 w1 s1 sub1 ck ts by simp
qed

section \<open>The order of timestamps in the results list\<close>

lemma results_summarize: "results (summarize rs) = rs"
  by (simp add: summarize_def Let_def)

lemma trace_done_le_next:
  assumes "trace_inv late W lat call n t D s" and "Suc k < length (st_windows s)"
  shows "w_done (st_windows s ! k) \<le> w_start (st_windows s ! Suc k)"
proof -
  have "window_at late W lat call n t D (st_windows s) (st_results s) k"
    using assms by (intro trace_window) simp_all
  from window_at_span(3) [OF this] show ?thesis
    unfolding trace_next(1) [OF assms] by simp
qed

lemma trace_order:
  assumes inv: "trace_inv late W lat call n t D s"
    and W: "0 < W" and ts: "\<And>i now. res_timestamp (call i now) = now"
    and ij: "i < j" "j < length (st_results s)" "i div n < j div n"
  shows "res_timestamp (st_results s ! i) \<le> res_timestamp (st_results s ! j)"
proof -
  let ?ws = "st_windows s"
  let ?rs = "st_results s"
  have n: "0 < n" using ij(3) by (cases n) simp_all
  have len: "length ?rs = length ?ws * n" by (rule trace_lengths(2) [OF inv])
  have "j div n < length ?ws"
    using ij(2) n unfolding len by (simp add: less_mult_imp_div_less)
  then have kj: "j div n < length ?ws" .
  have ki: "i div n < length ?ws" using ij(3) kj by simp
  have si: "Suc (i div n) < length ?ws" using ij(3) kj by simp
  have i_eq: "i div n * n + i mod n = i" by simp
  have j_eq: "j div n * n + j mod n = j" by simp
  have mi: "i mod n < n" and mj: "j mod n < n" using n by simp_all
  have "res_timestamp (?rs ! (i div n * n + i mod n)) \<le> w_done (?ws ! (i div n))"
    by (rule trace_timestamp(2) [OF inv ki mi W ts])
  then have a: "res_timestamp (?rs ! i) \<le> w_done (?ws ! (i div n))"
    unfolding i_eq .
  have b: "w_done (?ws ! (i div n)) \<le> w_start (?ws ! Suc (i div n))"
    by (rule trace_done_le_next [OF inv si])
  obtain d where d: "j div n = Suc (i div n) + d"
    using ij(3) by (metis Suc_leI le_Suc_ex)
  have "w_start (?ws ! Suc (i div n)) + int d * second \<le> w_start (?ws ! (Suc (i div n) + d))"
    using kj unfolding d by (rule trace_starts_apart [OF inv])
  moreover have "0 \<le> int d * second" by (simp add: second_def)
  ultimately have c: "w_start (?ws ! Suc (i div n)) \<le> w_start (?ws ! (j div n))"
    unfolding d by linarith
  have "w_start (?ws ! (j div n)) \<le> res_timestamp (?rs ! (j div n * n + j mod n))"
    by (rule trace_timestamp(1) [OF inv kj mj W ts])
  then have e: "w_start (?ws ! (j div n)) \<le> res_timestamp (?rs ! j)"
    unfolding j_eq .
  from a b c e show ?thesis by linarith
qed

text \<open>
  C4, as amended. The results of a sustained run are appended window after window,
  and within a window in order of submission, each with the time at which its own
  request completed. For every pair of indices \<open>i < j\<close> of results, throttled or
  not, that belong to different windows (\<open>i div rate < j div rate\<close>), the
  timestamp at \<open>i\<close> is less than or equal to the timestamp at \<open>j\<close>. Two results
  of the same window may carry their timestamps in either order.
\<close>

theorem timestamps_ordered_across_windows:
  "(let rs = results (run_sustained_test_late late e t base_url key auth_method D rate)
    in \<forall>i j. i < j \<and> j < length rs \<and> i div nat rate < j div nat rate
          \<longrightarrow> res_timestamp (rs ! i) \<le> res_timestamp (rs ! j))"
proof -
  define s where "s = sustained_loop_late late e t base_url key auth_method D rate"
  have inv: "trace_inv late 10 (env_latency e)
      (\<lambda>i now. test_request (env_utc e i) (env_serve e i) now base_url auth_method key
                  ''GET'' ''/test-bucket/test-object'') (nat rate) t D s"
    using window_loop_late_trace [OF s_def [unfolded sustained_loop_late_def]] by blast
  have W: "(0::nat) < 10" by simp
  have "res_timestamp (st_results s ! i) \<le> res_timestamp (st_results s ! j)"
    if "i < j" "j < length (st_results s)" "i div nat rate < j div nat rate" for i j
    using trace_order [OF inv W test_request_timestamp that] .
  then show ?thesis
    unfolding Let_def run_sustained_test_late_def results_summarize s_def [symmetric] by blast
qed

text \<open>
  C4, witness: two requests per second for two seconds; the first result of the first
  window, completed at 500, and the first result of the second window.
\<close>

theorem timestamps_ordered_across_windows_witness:
  "(let rs = results (run_sustained_test_late (\<lambda>k. 0) (slow_first_env 500) 0 ''http://localhost''
                ''test-basic-key'' ''v4'' 2 2)
    in (0::nat) < 2 \<and> 2 < length rs \<and> (0::nat) div nat 2 < 2 div nat 2
       \<and> res_timestamp (rs ! 0) = 500
       \<and> res_timestamp (rs ! 0) \<le> res_timestamp (rs ! 2))"
proof -
  define rs where "rs = results (run_sustained_test_late (\<lambda>k. 0) (slow_first_env 500) 0
                ''http://localhost'' ''test-basic-key'' ''v4'' 2 2)"
  have len: "length rs = 4" and r0: "res_timestamp (rs ! 0) = 500"
    unfolding rs_def by code_simp+
  have h: "(0::nat) < 2 \<and> 2 < length rs \<and> (0::nat) div nat 2 < 2 div nat 2"
    by (simp add: len)
  have "res_timestamp (rs ! 0) \<le> res_timestamp (rs ! 2)"
    using timestamps_ordered_across_windows
      [of "\<lambda>k. 0" "slow_first_env 500" 0 "''http://localhost''" "''test-basic-key''" "''v4''" 2 2,
       unfolded Let_def rs_def [symmetric], rule_format, OF h] .
  then show ?thesis
    unfolding Let_def rs_def [symmetric] using h r0 by simp
qed

text \<open>
  C4, counterexample to the claim as stated: one window of two requests, both
  throttled, the first taking 500 milliseconds and the second 100. They run at the same
  time on two workers of the pool; the results list has them in order of submission,
  with the timestamps 500 and 100.
\<close>

theorem timestamps_out_of_order_counterexample:
  "(let rs = results (run_sustained_test_late (\<lambda>k. 0) (slow_first_env 500) 0 ''http://localhost''
                ''test-basic-key'' ''v4'' 1 2)
    in length rs = 2
       \<and> res_status_code (rs ! 0) = Some 429 \<and> res_status_code (rs ! 1) = Some 429
       \<and> res_timestamp (rs ! 0) = 500 \<and> res_timestamp (rs ! 1) = 100
       \<and> \<not> res_timestamp (rs ! 0) \<le> res_timestamp (rs ! 1))"
  by code_simp

section \<open>Requests issued on a network without latency\<close>

lemma trace_zero_latency_window:
  assumes inv: "trace_inv late W lat call n t D s" and k: "k < length (st_windows s)"
    and W: "0 < W" and z: "\<forall>i. lat i = 0"
  shows "w_done (st_windows s ! k) = w_start (st_windows s ! k)"
    and "w_slept (st_windows s ! k) = second"
proof -
  let ?c = "w_start (st_windows s ! k)"
  let ?idx = "[k * n ..< k * n + n]"
  have at: "window_at late W lat call n t D (st_windows s) (st_results s) k"
    using inv k by (rule trace_window)
  have "pool_schedule (replicate W ?c) (map lat ?idx) = replicate (length (map lat ?idx)) ?c"
    using W z by (intro pool_schedule_zero) auto
  then have fin: "pool_schedule (replicate W ?c) (map lat ?idx) = replicate n ?c"
    by simp
  have d: "w_done (st_windows s ! k) = fold max (pool_schedule (replicate W ?c) (map lat ?idx)) ?c"
    using at unfolding window_at_def Let_def by blast
  show dn: "w_done (st_windows s ! k) = ?c"
    unfolding d fin by (rule fold_max_replicate)
  have "w_slept (st_windows s ! k) = max 0 (second - (w_done (st_windows s ! k) - ?c))"
    using at unfolding window_at_def Let_def by blast
  then show "w_slept (st_windows s ! k) = second"
    unfolding dn by (simp add: second_def)
qed

lemma trace_zero_latency_start:
  assumes inv: "trace_inv late W lat call n t D s" and W: "0 < W" and z: "\<forall>i. lat i = 0"
  shows "k < length (st_windows s)
     \<Longrightarrow> w_start (st_windows s ! k) = t + int k * second + (\<Sum>j<k. int (late j))"
proof (induction k)
  case 0
  then show ?case using trace_first [OF inv] by simp
next
  case (Suc k)
  have k: "k < length (st_windows s)" using Suc.prems by simp
  have "w_start (st_windows s ! Suc k)
          = w_done (st_windows s ! k) + w_slept (st_windows s ! k) + int (late k)"
    by (rule trace_next(1) [OF inv Suc.prems])
  also have "\<dots> = w_start (st_windows s ! k) + second + int (late k)"
    unfolding trace_zero_latency_window [OF inv k W z] by (rule refl)
  also have "\<dots> = t + int k * second + (\<Sum>j<k. int (late j)) + second + int (late k)"
    unfolding Suc.IH [OF k] by (rule refl)
  finally show ?case by (simp add: algebra_simps)
qed

lemma trace_results_all:
  fixes P :: "probe_result \<Rightarrow> bool"
  assumes inv: "trace_inv late W lat call n t D s" and P: "\<And>i now. P (call i now)"
  shows "\<forall>r \<in> set (st_results s). P r"
proof
  fix r assume "r \<in> set (st_results s)"
  then obtain x where x: "x < length (st_results s)" and r: "r = st_results s ! x"
    by (auto simp: in_set_conv_nth)
  have len: "length (st_results s) = length (st_windows s) * n"
    by (rule trace_lengths(2) [OF inv])
  have n: "0 < n" using x len by (cases n) simp_all
  have k: "x div n < length (st_windows s)"
    using x n unfolding len by (simp add: less_mult_imp_div_less)
  have i: "x mod n < n" using n by simp
  have "st_results s ! (x div n * n + x mod n) =
     call (x div n * n + x mod n)
       (pool_schedule (replicate W (w_start (st_windows s ! (x div n))))
          (map lat [x div n * n ..< x div n * n + n]) ! (x mod n))"
    by (rule trace_result [OF inv k i])
  then show "P r" using P r by simp
qed

lemma window_loop_late_zero_latency:
  fixes P :: "probe_result \<Rightarrow> bool"
  assumes s_def: "s = window_loop_late late W lat call rate t D
                  \<lparr>st_clock = t, st_submitted = 0, st_results = [], st_windows = []\<rparr>"
    and W: "0 < W" and z: "\<forall>i. lat i = 0" and P: "\<And>i now. P (call i now)" and D: "0 < D"
  shows "(\<forall>j < length (st_windows s). int j * second + (\<Sum>k<j. int (late k)) < D * second)"
    and "D * second \<le> int (length (st_windows s)) * second
                          + (\<Sum>k<length (st_windows s). int (late k))"
    and "1 \<le> length (st_windows s)" and "int (length (st_windows s)) \<le> D"
    and "length (st_results s) = nat rate * length (st_windows s)"
    and "\<forall>r \<in> set (st_results s). P r"
proof -
  let ?m = "length (st_windows s)"
  have inv: "trace_inv late W lat call (nat rate) t D s"
    and stop: "\<not> st_clock s - t < D * second"
    using window_loop_late_trace [OF s_def] by blast+
  show before: "\<forall>j < ?m. int j * second + (\<Sum>k<j. int (late k)) < D * second"
  proof (intro allI impI)
    fix j assume j: "j < ?m"
    have "w_start (st_windows s ! j) - t < D * second"
      by (rule trace_condition [OF inv j])
    then show "int j * second + (\<Sum>k<j. int (late k)) < D * second"
      unfolding trace_zero_latency_start [OF inv W z j] by simp
  qed
  have pos: "0 < ?m"
  proof (rule ccontr)
    assume "\<not> 0 < ?m"
    then have "st_clock s = t" using trace_clock [OF inv] by simp
    then show False using stop D by (simp add: second_def)
  qed
  then show "1 \<le> ?m" by (simp add: Suc_le_eq)
  have last: "?m - 1 < ?m" using pos by simp
  have "st_clock s = w_done (st_windows s ! (?m - 1)) + w_slept (st_windows s ! (?m - 1))
                       + int (late (?m - 1))"
    using trace_clock [OF inv] pos by simp
  also have "\<dots> = w_start (st_windows s ! (?m - 1)) + second + int (late (?m - 1))"
    unfolding trace_zero_latency_window [OF inv last W z] by (rule refl)
  also have "\<dots> = t + int (?m - 1) * second + (\<Sum>j<?m - 1. int (late j)) + second
                    + int (late (?m - 1))"
    unfolding trace_zero_latency_start [OF inv W z last] by (rule refl)
  also have "\<dots> = t + int (Suc (?m - 1)) * second + (\<Sum>j<Suc (?m - 1). int (late j))"
    by (simp add: algebra_simps)
  finally have "st_clock s = t + int (Suc (?m - 1)) * second + (\<Sum>j<Suc (?m - 1). int (late j))" .
  moreover have "Suc (?m - 1) = ?m" using pos by simp
  ultimately have clock: "st_clock s = t + int ?m * second + (\<Sum>j<?m. int (late j))"
    by (simp only:)
  show "D * second \<le> int ?m * second + (\<Sum>k<?m. int (late k))"
    using stop unfolding clock by simp
  show "int ?m \<le> D"
    using trace_count [OF inv] D by simp
  show "length (st_results s) = nat rate * ?m"
    using trace_lengths(2) [OF inv] by (simp add: mult.commute)
  show "\<forall>r \<in> set (st_results s). P r"
    using trace_results_all [where P = P, OF inv] P by blast
qed

lemma first_reaching_unique:
  fixes f :: "nat \<Rightarrow> int"
  assumes "\<forall>j < m. f j < b" and "b \<le> f m" and "\<forall>j < m'. f j < b" and "b \<le> f m'"
  shows "m = m'"
proof (rule ccontr)
  assume "m \<noteq> m'"
  then have "m < m' \<or> m' < m" by auto
  then show False using assms by (auto simp: not_less [symmetric])
qed

lemma analyze_all_success:
  assumes "\<forall>r \<in> set rs. res_status_code r = Some 200"
  shows "shown_success (analyze_results rs) = length rs \<and> shown_total (analyze_results rs) = length rs"
  using assms by (induction rs) (auto simp: analyze_results_def Let_def)

lemma load_loop_late_zero_latency:
  assumes "0 < D" and "\<forall>i. env_latency e i = 0"
    and "\<forall>i req. \<exists>hs el. env_serve e i req = Response 200 hs el"
  shows "(\<forall>j < length (st_windows (load_loop_late late e t base_url api_key method R D)).
            int j * second + (\<Sum>k<j. int (late k)) < D * second)
     \<and> D * second \<le> int (length (st_windows (load_loop_late late e t base_url api_key method R D)))
                         * second
              + (\<Sum>k<length (st_windows (load_loop_late late e t base_url api_key method R D)).
                    int (late k))
     \<and> 1 \<le> length (st_windows (load_loop_late late e t base_url api_key method R D))
     \<and> int (length (st_windows (load_loop_late late e t base_url api_key method R D))) \<le> D
     \<and> length (run_load_test_late late e t base_url api_key method R D)
         = nat R * length (st_windows (load_loop_late late e t base_url api_key method R D))
     \<and> shown_success (analyze_results (run_load_test_late late e t base_url api_key method R D))
         = nat R * length (st_windows (load_loop_late late e t base_url api_key method R D))"
proof -
  define s where "s = load_loop_late late e t base_url api_key method R D"
  have W: "(0::nat) < 20" by simp
  have P: "(\<lambda>r. res_status_code r = Some 200)
      (test_request_basic (env_serve e i) now base_url api_key method ''/test-bucket/'')" for i now
  proof -
    obtain hs el where "env_serve e i (basic_request base_url api_key method ''/test-bucket/'')
        = Response 200 hs el"
      using assms(3) by blast
    then show ?thesis by (simp add: test_request_basic_def)
  qed
  note z = window_loop_late_zero_latency
      [where P = "\<lambda>r. res_status_code r = Some 200"
         and call = "\<lambda>i now. test_request_basic (env_serve e i) now base_url api_key method
                       ''/test-bucket/''",
       OF s_def [unfolded load_loop_late_def] W assms(2) P assms(1)]
  have rs: "run_load_test_late late e t base_url api_key method R D = st_results s"
    by (simp add: run_load_test_late_def s_def)
  have succ: "shown_success (analyze_results (st_results s)) = length (st_results s)"
    using analyze_all_success [OF z(6)] by blast
  show ?thesis
    unfolding s_def [symmetric] rs succ
    using z(1) z(2) z(3) z(4) z(5) by blast
qed

lemma sustained_loop_late_zero_latency:
  assumes "0 < D" and "\<forall>i. env_latency e i = 0"
    and "\<forall>i req. \<exists>hs el. env_serve e i req = Response 200 hs el"
  shows "(\<forall>j < length (st_windows (sustained_loop_late late e t base_url key auth_method D R)).
            int j * second + (\<Sum>k<j. int (late k)) < D * second)
     \<and> D * second \<le> int (length (st_windows (sustained_loop_late late e t base_url key auth_method D R)))
                         * second
              + (\<Sum>k<length (st_windows (sustained_loop_late late e t base_url key auth_method D R)).
                    int (late k))
     \<and> total_requests (run_sustained_test_late late e t base_url key auth_method D R)
         = nat R * length (st_windows (sustained_loop_late late e t base_url key auth_method D R))
     \<and> success_count (run_sustained_test_late late e t base_url key auth_method D R)
         = nat R * length (st_windows (sustained_loop_late late e t base_url key auth_method D R))"
proof -
  define s where "s = sustained_loop_late late e t base_url key auth_method D R"
  have W: "(0::nat) < 10" by simp
  have P: "(\<lambda>r. res_status_code r = Some 200 \<and> res_error r = None)
      (test_request (env_utc e i) (env_serve e i) now base_url auth_method key
         ''GET'' ''/test-bucket/test-object'')" for i now
  proof -
    obtain hs el where "env_serve e i (build_request (env_utc e i) base_url auth_method key
        ''GET'' ''/test-bucket/test-object'') = Response 200 hs el"
      using assms(3) by blast
    then show ?thesis by (simp add: test_request_def)
  qed
  note z = window_loop_late_zero_latency
      [where P = "\<lambda>r. res_status_code r = Some 200 \<and> res_error r = None"
         and call = "\<lambda>i now. test_request (env_utc e i) (env_serve e i) now base_url
                       auth_method key ''GET'' ''/test-bucket/test-object''",
       OF s_def [unfolded sustained_loop_late_def] W assms(2) P assms(1)]
  have cnt: "success_count (summarize (st_results s)) = length (st_results s)"
    and tot: "total_requests (summarize (st_results s)) = length (st_results s)"
    using summarize_all_success [OF z(6)] by blast+
  show ?thesis
    unfolding s_def [symmetric] run_sustained_test_late_def cnt tot
    using z(1) z(2) z(5) by blast
qed

lemma constant_lateness:
  fixes m c :: nat
  assumes "\<forall>j < m. int j * second + (\<Sum>k<j. int c) < D * second"
    and "D * second \<le> int m * second + (\<Sum>k<m. int c)"
  shows "\<forall>j < m. int j * (1000 + int c) < D * 1000"
    and "D * 1000 \<le> int m * (1000 + int c)"
  using assms by (simp_all add: second_def algebra_simps)

text \<open>
  C3, as amended. On a network that answers every request at once with status 200, a
  run at \<open>R > 0\<close> requests per second for \<open>D > 0\<close> seconds issues \<open>R\<close>
  requests in each window, all of them counted as successes, and runs \<open>m\<close> windows,
  the same number in \<open>run_load_test\<close> and in \<open>run_sustained_test\<close>: \<open>m\<close> is
  the first number of windows whose durations, one second each plus the time by which
  each ended late, add up to \<open>D\<close> seconds or more. So the total \<open>R * m\<close> is at
  least \<open>R\<close> and at most \<open>R * D\<close>, and it is exactly \<open>R * D\<close> when no window
  ends late. Time lost to a late sleep is not made up, and the total may fall short of
  \<open>R * D\<close> by more than \<open>R\<close>.
\<close>

theorem requests_issued_in_whole_windows:
  assumes "0 < R" and "0 < D"
    and "\<forall>i. env_latency e i = 0"
    and "\<forall>i req. \<exists>hs el. env_serve e i req = Response 200 hs el"
  shows "\<exists>m. (\<forall>j < m. int j * second + (\<Sum>k<j. int (late k)) < D * second)
     \<and> D * second \<le> int m * second + (\<Sum>k<m. int (late k))
     \<and> 1 \<le> m \<and> int m \<le> D
     \<and> length (st_windows (load_loop_late late e t base_url api_key method R D)) = m
     \<and> length (st_windows (sustained_loop_late late e t base_url key auth_method D R)) = m
     \<and> length (run_load_test_late late e t base_url api_key method R D) = nat R * m
     \<and> shown_success (analyze_results (run_load_test_late late e t base_url api_key method R D))
         = nat R * m
     \<and> total_requests (run_sustained_test_late late e t base_url key auth_method D R) = nat R * m
     \<and> success_count (run_sustained_test_late late e t base_url key auth_method D R) = nat R * m
     \<and> int (nat R * m) \<le> R * D
     \<and> ((\<forall>k < m. late k = 0) \<longrightarrow> int (nat R * m) = R * D)"
proof -
  define m where "m = length (st_windows (load_loop_late late e t base_url api_key method R D))"
  define m' where "m' = length (st_windows (sustained_loop_late late e t base_url key auth_method D R))"
  note l = load_loop_late_zero_latency [OF assms(2,3,4), of late t base_url api_key "method" R,
      unfolded m_def [symmetric]]
  note u = sustained_loop_late_zero_latency [OF assms(2,3,4), of late t base_url key auth_method R,
      unfolded m'_def [symmetric]]
  have l1: "\<forall>j < m. int j * second + (\<Sum>k<j. int (late k)) < D * second"
    and l2: "D * second \<le> int m * second + (\<Sum>k<m. int (late k))"
    and l3: "1 \<le> m" and l4: "int m \<le> D"
    and l5: "length (run_load_test_late late e t base_url api_key method R D) = nat R * m"
    and l6: "shown_success (analyze_results (run_load_test_late late e t base_url api_key method R D))
         = nat R * m"
    using l by blast+
  have u1: "\<forall>j < m'. int j * second + (\<Sum>k<j. int (late k)) < D * second"
    and u2: "D * second \<le> int m' * second + (\<Sum>k<m'. int (late k))"
    and u3: "total_requests (run_sustained_test_late late e t base_url key auth_method D R) = nat R * m'"
    and u4: "success_count (run_sustained_test_late late e t base_url key auth_method D R) = nat R * m'"
    using u by blast+
  have same: "m' = m"
    by (rule first_reaching_unique
          [where f = "\<lambda>j. int j * second + (\<Sum>k<j. int (late k))", OF u1 u2 l1 l2])
  have prod: "int (nat R * m) = R * int m" using assms(1) by simp
  have le: "int (nat R * m) \<le> R * D"
    unfolding prod using l4 assms(1) by (simp add: mult_left_mono)
  have exact: "int (nat R * m) = R * D" if "\<forall>k < m. late k = 0"
  proof -
    have "(\<Sum>k<m. int (late k)) = 0" using that by simp
    then have "D * second \<le> int m * second" using l2 by simp
    then have "D \<le> int m" by (simp add: second_def)
    then show ?thesis unfolding prod using l4 by simp
  qed
  show ?thesis
    using l1 l2 l3 l4 l5 l6 u3 [unfolded same] u4 [unfolded same] le exact
      m_def [symmetric] m'_def [symmetric, unfolded same]
    by (intro exI [of _ m]) blast
qed

text \<open>
  C3, witness: three requests per second for six seconds. With every window ending
  half a second late there are four windows and 12 requests; with no window ending
  late there are 18.
\<close>

theorem requests_issued_in_whole_windows_witness:
  "(0::int) < 3 \<and> (0::int) < 6
   \<and> length (run_load_test_late (\<lambda>k. 500) (instant_env 200 []) 0 ''http://localhost''
        (Some ''test-key'') ''GET'' 3 6) = 12
   \<and> shown_success (analyze_results (run_load_test_late (\<lambda>k. 500) (instant_env 200 []) 0
        ''http://localhost'' (Some ''test-key'') ''GET'' 3 6)) = 12
   \<and> total_requests (run_sustained_test_late (\<lambda>k. 500) (instant_env 200 []) 0 ''http://localhost''
        ''test-premium-key'' ''v4'' 6 3) = 12
   \<and> success_count (run_sustained_test_late (\<lambda>k. 500) (instant_env 200 []) 0 ''http://localhost''
        ''test-premium-key'' ''v4'' 6 3) = 12
   \<and> length (run_load_test_late (\<lambda>k. 0) (instant_env 200 []) 0 ''http://localhost''
        (Some ''test-key'') ''GET'' 3 6) = 18"
proof -
  have r: "(0::int) < 3" and d: "(0::int) < 6" by simp_all
  have l: "\<forall>i. env_latency (instant_env 200 []) i = 0" by (simp add: instant_env_def)
  have s: "\<forall>i req. \<exists>hs el. env_serve (instant_env 200 []) i req = Response 200 hs el"
    by (simp add: instant_env_def)
  obtain m where m1: "\<forall>j < m. int j * second + (\<Sum>k<j. int 500) < 6 * second"
    and m2: "6 * second \<le> int m * second + (\<Sum>k<m. int 500)"
    and a: "length (run_load_test_late (\<lambda>k. 500) (instant_env 200 []) 0 ''http://localhost''
        (Some ''test-key'') ''GET'' 3 6) = nat 3 * m"
      "shown_success (analyze_results (run_load_test_late (\<lambda>k. 500) (instant_env 200 []) 0
        ''http://localhost'' (Some ''test-key'') ''GET'' 3 6)) = nat 3 * m"
      "total_requests (run_sustained_test_late (\<lambda>k. 500) (instant_env 200 []) 0 ''http://localhost''
        ''test-premium-key'' ''v4'' 6 3) = nat 3 * m"
      "success_count (run_sustained_test_late (\<lambda>k. 500) (instant_env 200 []) 0 ''http://localhost''
        ''test-premium-key'' ''v4'' 6 3) = nat 3 * m"
    using requests_issued_in_whole_windows [OF r d l s, of "\<lambda>k. 500" 0 "''http://localhost''"
        "Some ''test-key''" "''GET''" "''test-premium-key''" "''v4''"]
    by blast
  note c = constant_lateness [OF m1 m2]
  have "4 \<le> m" using c(2) by simp
  moreover have "m \<le> 4"
  proof (rule ccontr)
    assume "\<not> m \<le> 4"
    then have "4 < m" by simp
    then have "int 4 * (1000 + int 500) < 6 * 1000" using c(1) by blast
    then show False by simp
  qed
  ultimately have m: "m = 4" by simp
  obtain m0 where e: "(\<forall>k < m0. (0::nat) = 0) \<longrightarrow> int (nat 3 * m0) = 3 * 6"
    and b: "length (run_load_test_late (\<lambda>k. 0) (instant_env 200 []) 0 ''http://localhost''
        (Some ''test-key'') ''GET'' 3 6) = nat 3 * m0"
    using requests_issued_in_whole_windows [OF r d l s, of "\<lambda>k. 0" 0 "''http://localhost''"
        "Some ''test-key''" "''GET''" "''test-premium-key''" "''v4''"]
    by blast
  from e have "int (nat 3 * m0) = 18" by simp
  then have b': "nat 3 * m0 = 18" by linarith
  show ?thesis
    using a b unfolding m b' by simp
qed

text \<open>
  C3, counterexample to the claim as stated: two requests per second for 300 seconds,
  every sleep returning 16 milliseconds late. The run has 296 windows and issues 592
  requests, 8 fewer than \<open>R * D = 600\<close>, where the claim allows a difference of 2.
\<close>

theorem late_sleeps_fall_short_counterexample:
  "length (run_load_test_late (\<lambda>k. 16) (instant_env 200 []) 0 ''http://localhost''
        (Some ''test-key'') ''GET'' 2 300) = 592
   \<and> \<not> \<bar>int (length (run_load_test_late (\<lambda>k. 16) (instant_env 200 []) 0 ''http://localhost''
        (Some ''test-key'') ''GET'' 2 300)) - 2 * 300\<bar> \<le> 2"
proof -
  define m where "m = length (st_windows (load_loop_late (\<lambda>k. 16) (instant_env 200 []) 0
      ''http://localhost'' (Some ''test-key'') ''GET'' 2 300))"
  have d: "(0::int) < 300" by simp
  have l: "\<forall>i. env_latency (instant_env 200 []) i = 0" by (simp add: instant_env_def)
  have s: "\<forall>i req. \<exists>hs el. env_serve (instant_env 200 []) i req = Response 200 hs el"
    by (simp add: instant_env_def)
  note z = load_loop_late_zero_latency [OF d l s, of "\<lambda>k. 16" 0 "''http://localhost''"
      "Some ''test-key''" "''GET''" 2, unfolded m_def [symmetric]]
  have m1: "\<forall>j < m. int j * second + (\<Sum>k<j. int 16) < 300 * second"
    using z [THEN conjunct1] .
  have m2: "300 * second \<le> int m * second + (\<Sum>k<m. int 16)"
    using z [THEN conjunct2, THEN conjunct1] .
  have len: "length (run_load_test_late (\<lambda>k. 16) (instant_env 200 []) 0 ''http://localhost''
        (Some ''test-key'') ''GET'' 2 300) = nat 2 * m"
    using z [THEN conjunct2, THEN conjunct2, THEN conjunct2, THEN conjunct2, THEN conjunct1] .
  note c = constant_lateness [OF m1 m2]
  have "296 \<le> m" using c(2) by simp
  moreover have "m \<le> 296"
  proof (rule ccontr)
    assume "\<not> m \<le> 296"
    then have "296 < m" by simp
    then have "int 296 * (1000 + int 16) < 300 * 1000" using c(1) by blast
    then show False by simp
  qed
  ultimately have m: "m = 296" by simp
  show ?thesis unfolding len m by simp
qed

end
